theory Spec2Isabelle
  imports Complex_Main "HOL-Library.Word" "HOL-Library.Sublist"
begin

section \<open>Machine types\<close>

text \<open>
  Seeds, generator outputs, state words and the loop counters of the program are
  \<^verbatim>\<open>uint32_t\<close>: 32-bit words whose arithmetic wraps. Vector sizes (\<^verbatim>\<open>size_t\<close>) are
  list lengths. A comparison between a counter and a size is made at the width of the
  size, so the counter is read with \<^const>\<open>unat\<close>.
\<close>

type_synonym u32 = "32 word"

section \<open>Arithmetic on \<^verbatim>\<open>double\<close>\<close>

text \<open>
  A finite \<^verbatim>\<open>double\<close> is the real number it denotes, and an operation on doubles is
  the operation on the reals followed by the rounding of IEEE 754 binary64 in its
  default mode: to the nearest double, a tie going to the double with the even
  significand. A conversion from an integer type rounds in the same way. Every
  operation is taken to be evaluated in binary64, with no excess precision.

  \<open>round_to_even\<close> rounds a real to the nearest integer, a tie going to the even one.
  \<open>binade x\<close> is the exponent of a positive \<open>x\<close>, the \<open>e\<close> with
  \<^verbatim>\<open>2^e <= x < 2^(e+1)\<close>, searched upwards from 0 when \<open>1 \<le> x\<close> and downwards from
  \<open>-1\<close> otherwise, and kept within the exponents \<open>-1074\<close> to \<open>1023\<close> of the format. The
  doubles of that binade are the multiples of \<^verbatim>\<open>2^(e-52)\<close>, a significand of 53 bits,
  and the subnormal doubles are the multiples of \<^verbatim>\<open>2^(-1074)\<close>; \<open>double_round\<close>
  rounds to the nearest of these multiples. Magnitudes of \<^verbatim>\<open>2^1024\<close> and more, which
  round to an infinity, do not arise from the 32-bit counters and the sizes of the
  program, and \<open>double_round\<close> does not tell them apart.

  The confidence of a candidate seed is computed with this rounding. The progress
  percentage and the score of a window are stated on the exact quotient, as their
  definitions explain.
\<close>

definition round_to_even :: "real \<Rightarrow> int" where
  "round_to_even x =
     (if x - of_int \<lfloor>x\<rfloor> < 1 / 2 then \<lfloor>x\<rfloor>
      else if 1 / 2 < x - of_int \<lfloor>x\<rfloor> then \<lfloor>x\<rfloor> + 1
      else if even \<lfloor>x\<rfloor> then \<lfloor>x\<rfloor> else \<lfloor>x\<rfloor> + 1)"

fun binade_up :: "real \<Rightarrow> int \<Rightarrow> nat \<Rightarrow> int" where
  "binade_up x k 0 = k"
| "binade_up x k (Suc n) = (if 2 powi (k + 1) \<le> x then binade_up x (k + 1) n else k)"

fun binade_down :: "real \<Rightarrow> int \<Rightarrow> nat \<Rightarrow> int" where
  "binade_down x k 0 = k"
| "binade_down x k (Suc n) = (if 2 powi k \<le> x then k else binade_down x (k - 1) n)"

definition binade :: "real \<Rightarrow> int" where
  "binade x = (if 1 \<le> x then binade_up x 0 1023 else binade_down x (- 1) 1073)"

definition double_round_pos :: "real \<Rightarrow> real" where
  "double_round_pos x =
     (let e = max (binade x - 52) (- 1074)
      in of_int (round_to_even (x / 2 powi e)) * 2 powi e)"

definition double_round :: "real \<Rightarrow> real" where
  "double_round x =
     (if x = 0 then 0 else if 0 < x then double_round_pos x else - double_round_pos (- x))"

section \<open>Work partitioner: \<^verbatim>\<open>DivisionOfLabor\<close>\<close>

text \<open>
  The loop of \<^verbatim>\<open>DivisionOfLabor\<close>: \<^verbatim>\<open>index\<close> runs from 0 up to
  \<^verbatim>\<open>numberOfWorkers\<close>, \<^verbatim>\<open>leftover\<close> is decremented while it is positive,
  and \<^verbatim>\<open>labor[index]\<close> is written in each round.
\<close>

function DivisionOfLabor_loop :: "u32 \<Rightarrow> u32 \<Rightarrow> u32 \<Rightarrow> u32 \<Rightarrow> u32 list \<Rightarrow> u32 list" where
  "DivisionOfLabor_loop work numberOfWorkers index leftover labor =
     (if index < numberOfWorkers then
        (if 0 < leftover
         then DivisionOfLabor_loop work numberOfWorkers (index + 1) (leftover - 1)
                (labor[unat index := work + 1])
         else DivisionOfLabor_loop work numberOfWorkers (index + 1) leftover
                (labor[unat index := work]))
      else labor)"
  by pat_completeness auto
termination
proof (relation "measure (\<lambda>(work, numberOfWorkers, index, leftover, labor).
                    unat numberOfWorkers - unat index)")
  show "wf (measure (\<lambda>(work, numberOfWorkers, index, leftover, labor).
                    unat numberOfWorkers - unat index))"
    by simp
next
  fix work numberOfWorkers index leftover :: u32 and labor :: "u32 list"
  assume lt: "index < numberOfWorkers"
  then have "unat index < unat numberOfWorkers"
    by (simp add: word_less_nat_alt)
  moreover have "unat numberOfWorkers < 2 ^ 32"
    using unsigned_less [of numberOfWorkers] by simp
  ultimately have "unat (index + 1) = unat index + 1"
    by (simp add: unat_word_ariths)
  with lt have "unat numberOfWorkers - unat (index + 1) < unat numberOfWorkers - unat index"
    by (simp add: word_less_nat_alt)
  then show "((work, numberOfWorkers, index + 1, leftover - 1, labor[unat index := work + 1]),
              (work, numberOfWorkers, index, leftover, labor))
             \<in> measure (\<lambda>(work, numberOfWorkers, index, leftover, labor).
                    unat numberOfWorkers - unat index)"
    by simp
  from \<open>unat numberOfWorkers - unat (index + 1) < unat numberOfWorkers - unat index\<close>
  show "((work, numberOfWorkers, index + 1, leftover, labor[unat index := work]),
         (work, numberOfWorkers, index, leftover, labor))
        \<in> measure (\<lambda>(work, numberOfWorkers, index, leftover, labor).
                    unat numberOfWorkers - unat index)"
    by simp
qed

declare DivisionOfLabor_loop.simps [simp del]

text \<open>
  \<^verbatim>\<open>DivisionOfLabor(sizeOfWork, numberOfWorkers)\<close>. The unsigned division by zero
  of a call with no worker is undefined behaviour: the model returns \<open>None\<close> there.
  The vector \<^verbatim>\<open>labor(numberOfWorkers)\<close> starts as \<^verbatim>\<open>numberOfWorkers\<close> zeros.
\<close>

definition DivisionOfLabor :: "u32 \<Rightarrow> u32 \<Rightarrow> u32 list option" where
  "DivisionOfLabor sizeOfWork numberOfWorkers =
     (if numberOfWorkers = 0 then None
      else Some (DivisionOfLabor_loop (sizeOfWork div numberOfWorkers) numberOfWorkers 0
                   (sizeOfWork mod numberOfWorkers) (replicate (unat numberOfWorkers) 0)))"

section \<open>The PRNG interface\<close>

text \<open>
  The recovery engine is written against the abstract class \<^verbatim>\<open>PRNG\<close>, whose
  implementations are chosen by name through \<^verbatim>\<open>PRNGFactory\<close>. The engine is
  therefore modelled over an arbitrary implementation: a record of the methods, each
  taking the state \<open>'g\<close> of the generator object and returning the new state where the
  method may change it. \<open>getInstance\<close> is the object the factory returns for the chosen
  name. \<^verbatim>\<open>reverseToSeed(&outSeed, max_iter)\<close> takes the value \<open>outSeed\<close> holds before
  the call and the bound, and returns the verdict with the value it holds afterwards.

  The state of a generator is the state of its object: what a method returns depends on
  the object it is called on and on nothing else, so a call on the generator of one
  worker does not change what the generator of another worker returns. A class that
  keeps its state elsewhere is an instance only while one thread uses it. This is the
  case of \<^verbatim>\<open>GlibcRand\<close>, whose \<^verbatim>\<open>seed\<close> and \<^verbatim>\<open>random\<close> call \<^verbatim>\<open>srand\<close> and
  \<^verbatim>\<open>rand\<close> of the C library: their state is one per process, and with two or more
  workers the replays of the workers would disturb one another.
\<close>

record 'g PRNG =
  getInstance :: "'g"
  seed :: "'g \<Rightarrow> u32 \<Rightarrow> 'g"
  random_next :: "'g \<Rightarrow> u32 \<times> 'g"
  getStateSize :: "'g \<Rightarrow> u32"
  setState :: "'g \<Rightarrow> u32 list \<Rightarrow> 'g"
  getState :: "'g \<Rightarrow> u32 list"
  setEvidence :: "'g \<Rightarrow> u32 list \<Rightarrow> 'g"
  tune :: "'g \<Rightarrow> u32 list \<Rightarrow> u32 list \<Rightarrow> 'g"
  predictForward :: "'g \<Rightarrow> u32 \<Rightarrow> u32 list \<times> 'g"
  predictBackward :: "'g \<Rightarrow> u32 \<Rightarrow> u32 list \<times> 'g"
  reverseToSeed :: "'g \<Rightarrow> u32 \<Rightarrow> u32 \<Rightarrow> bool \<times> u32 \<times> 'g"

section \<open>The reference generator: \<^verbatim>\<open>GlibcRand\<close>\<close>

text \<open>
  The fields of a \<^verbatim>\<open>GlibcRand\<close> object. The constant
  \<^verbatim>\<open>GLIBC_RAND_STATE_SIZE\<close> is declared in a header outside the sources at hand, so
  it is a parameter of the functions that use it.
\<close>

record GlibcRand =
  seedValue :: u32
  m_state :: "u32 list"

text \<open>\<^verbatim>\<open>std::vector::resize(n, v)\<close>: keep the first \<open>n\<close> elements, or append copies of \<open>v\<close>.\<close>

definition vector_resize :: "nat \<Rightarrow> 'a \<Rightarrow> 'a list \<Rightarrow> 'a list" where
  "vector_resize n v xs = (if n \<le> length xs then take n xs else xs @ replicate (n - length xs) v)"

definition GlibcRand_new :: GlibcRand where
  "GlibcRand_new = \<lparr>seedValue = 0, m_state = []\<rparr>"

definition GlibcRand_getSeed :: "GlibcRand \<Rightarrow> u32" where
  "GlibcRand_getSeed g = seedValue g"

definition GlibcRand_getStateSize :: "u32 \<Rightarrow> GlibcRand \<Rightarrow> u32" where
  "GlibcRand_getStateSize GLIBC_RAND_STATE_SIZE g = GLIBC_RAND_STATE_SIZE"

definition GlibcRand_setState :: "u32 \<Rightarrow> GlibcRand \<Rightarrow> u32 list \<Rightarrow> GlibcRand" where
  "GlibcRand_setState GLIBC_RAND_STATE_SIZE g inState =
     g\<lparr>m_state := vector_resize (unat GLIBC_RAND_STATE_SIZE) 0 inState\<rparr>"

definition GlibcRand_getState :: "GlibcRand \<Rightarrow> u32 list" where
  "GlibcRand_getState g = m_state g"

definition GlibcRand_predictForward :: "GlibcRand \<Rightarrow> u32 \<Rightarrow> u32 list \<times> GlibcRand" where
  "GlibcRand_predictForward g n = ([], g)"

definition GlibcRand_predictBackward :: "GlibcRand \<Rightarrow> u32 \<Rightarrow> u32 list \<times> GlibcRand" where
  "GlibcRand_predictBackward g n = ([], g)"

section \<open>Brute-force worker: \<^verbatim>\<open>BruteForce\<close>\<close>

text \<open>
  The depth loop of \<^verbatim>\<open>BruteForce\<close> for one seed: \<^verbatim>\<open>index\<close> runs from 0 up to
  \<^verbatim>\<open>depth\<close>; each round draws \<^verbatim>\<open>nextRand\<close>, reads
  \<^verbatim>\<open>observedOutputs[matchesFound]\<close> and, on a match, advances \<^verbatim>\<open>matchesFound\<close> and
  breaks when it has reached the number of observations. \<^verbatim>\<open>operator[]\<close> does not
  check its index: a read at or beyond the size is undefined behaviour, and the model
  returns \<open>None\<close> for it. Otherwise the loop returns \<^verbatim>\<open>matchesFound\<close> and the
  generator.
\<close>

function BruteForce_depth_loop ::
  "'g PRNG \<Rightarrow> u32 list \<Rightarrow> u32 \<Rightarrow> 'g \<Rightarrow> u32 \<Rightarrow> u32 \<Rightarrow> (u32 \<times> 'g) option" where
  "BruteForce_depth_loop P observedOutputs depth g index matchesFound =
     (if index < depth then
        (if unat matchesFound < length observedOutputs then
           (if observedOutputs ! unat matchesFound = fst (random_next P g) then
              (if unat (matchesFound + 1) = length observedOutputs
               then Some (matchesFound + 1, snd (random_next P g))
               else BruteForce_depth_loop P observedOutputs depth (snd (random_next P g))
                      (index + 1) (matchesFound + 1))
            else BruteForce_depth_loop P observedOutputs depth (snd (random_next P g))
                   (index + 1) matchesFound)
         else None)
      else Some (matchesFound, g))"
  by pat_completeness auto
termination
proof (relation "measure (\<lambda>(P, observedOutputs, depth, g, index, matchesFound).
                    unat depth - unat index)", goal_cases)
  case 1
  show ?case by simp
next
  case (2 P observedOutputs depth g index matchesFound)
  then have "unat index < unat depth"
    by (simp add: word_less_nat_alt)
  moreover have "unat depth < 2 ^ 32"
    using unsigned_less [of depth] by simp
  ultimately have "unat (index + 1) = unat index + 1"
    by (simp add: unat_word_ariths)
  with \<open>unat index < unat depth\<close> show ?case by simp
next
  case (3 P observedOutputs depth g index matchesFound)
  then have "unat index < unat depth"
    by (simp add: word_less_nat_alt)
  moreover have "unat depth < 2 ^ 32"
    using unsigned_less [of depth] by simp
  ultimately have "unat (index + 1) = unat index + 1"
    by (simp add: unat_word_ariths)
  with \<open>unat index < unat depth\<close> show ?case by simp
qed

declare BruteForce_depth_loop.simps [simp del]

text \<open>
  The first \<open>n\<close> outputs of a generator in state \<open>g\<close>: what \<^verbatim>\<open>GenerateSample\<close>
  prints after seeding.
\<close>

fun GenerateSample_outputs :: "'g PRNG \<Rightarrow> 'g \<Rightarrow> nat \<Rightarrow> u32 list" where
  "GenerateSample_outputs P g 0 = []"
| "GenerateSample_outputs P g (Suc n) =
     fst (random_next P g) # GenerateSample_outputs P (snd (random_next P g)) n"

definition GenerateSample :: "'g PRNG \<Rightarrow> u32 \<Rightarrow> u32 \<Rightarrow> u32 list" where
  "GenerateSample P seed' depth =
     GenerateSample_outputs P (seed P (getInstance P) seed') (unat depth)"

text \<open>
  The contract of seeding: \<^verbatim>\<open>seed\<close> replaces the state, so the outputs after
  seeding do not depend on what the generator object did before. Each worker reuses one
  generator object and seeds it again for every candidate.
\<close>

definition seed_determines_outputs :: "'g PRNG \<Rightarrow> bool" where
  "seed_determines_outputs P \<longleftrightarrow>
     (\<forall>g v n. GenerateSample_outputs P (seed P g v) n =
              GenerateSample_outputs P (seed P (getInstance P) v) n)"

text \<open>
  \<^verbatim>\<open>BruteForce\<close> runs as one thread per worker and shares \<^verbatim>\<open>isCompleted\<close> with the other
  workers and with \<^verbatim>\<open>StatusThread\<close>. The thread is modelled by its local variables and
  a program point; one step runs the code up to the next access to shared data:
  \<^item> \<open>LoopTest\<close>: the test \<^verbatim>\<open>seedIndex <= endingSeed\<close> of the \<^verbatim>\<open>for\<close> loop and, when it
    holds, \<^verbatim>\<open>generator->seed(seedIndex)\<close> and the depth loop (lines 82 to 100), which
    work on the generator object of the worker and on no shared data;
  \<^item> \<open>FlagCheck\<close>: the read of \<^verbatim>\<open>isCompleted\<close> and the \<^verbatim>\<open>break\<close> (lines 102 to 105);
  \<^item> \<open>Record\<close>: the store to \<^verbatim>\<open>status->at(id)\<close>, the confidence and the
    \<^verbatim>\<open>push_back\<close> (lines 107 to 113);
  \<^item> \<open>Signal\<close>: the store \<^verbatim>\<open>isCompleted = true\<close> on a full match, and
    \<^verbatim>\<open>++seedIndex\<close> (lines 114 to 116 and 82);
  \<^item> \<open>Finished\<close>: the thread has left the loop; \<open>OutOfBounds\<close>: it has read
    \<^verbatim>\<open>observedOutputs\<close> beyond its end.

  The slots \<^verbatim>\<open>answers->at(id)\<close> and \<^verbatim>\<open>status->at(id)\<close> are written by worker \<^verbatim>\<open>id\<close> only;
  they are the fields \<open>bf_answers\<close> and \<open>bf_status\<close> of the worker.
\<close>

datatype location = LoopTest | FlagCheck | Record | Signal | Finished | OutOfBounds

record 'g worker =
  bf_pc :: location
  bf_generator :: 'g
  bf_startingSeed :: u32
  bf_endingSeed :: u32
  bf_seedIndex :: u32
  bf_matchesFound :: u32
  bf_answers :: "(u32 \<times> real) list"
  bf_status :: u32

text \<open>
  \<^verbatim>\<open>((double) matchesFound / (double) observedOutputs.size()) * 100.0\<close>: the two
  conversions, the division and the multiplication each round to a double. With no
  observation the quotient is \<^verbatim>\<open>0.0 / 0.0\<close>, a NaN, and every comparison with it is
  false: \<open>confidence_reaches\<close> is the test \<^verbatim>\<open>minimumConfidence <= confidence\<close>.
  The minimum confidence is any real; in this test an infinite one behaves as a real
  below 0 or above 100 does, and a NaN as a real above 100 does.
\<close>

definition confidence :: "u32 \<Rightarrow> u32 list \<Rightarrow> real" where
  "confidence matchesFound observedOutputs =
     double_round
       (double_round
          (double_round (real (unat matchesFound)) /
           double_round (real (length observedOutputs))) * 100)"

definition confidence_reaches :: "real \<Rightarrow> u32 \<Rightarrow> u32 list \<Rightarrow> bool" where
  "confidence_reaches minimumConfidence matchesFound observedOutputs \<longleftrightarrow>
     observedOutputs \<noteq> [] \<and> minimumConfidence \<le> confidence matchesFound observedOutputs"

text \<open>
  One step of a worker. \<open>flag\<close> is the value of \<^verbatim>\<open>isCompleted\<close> when the step reads
  it; the second component of the result is the value the step stores to
  \<^verbatim>\<open>isCompleted\<close>, if it stores one.
\<close>

definition BruteForce_step ::
  "'g PRNG \<Rightarrow> u32 list \<Rightarrow> real \<Rightarrow> u32 \<Rightarrow> bool \<Rightarrow> 'g worker \<Rightarrow> 'g worker \<times> bool option" where
  "BruteForce_step P observedOutputs minimumConfidence depth flag w =
     (case bf_pc w of
        LoopTest \<Rightarrow>
          if bf_seedIndex w \<le> bf_endingSeed w then
            (case BruteForce_depth_loop P observedOutputs depth
                    (seed P (bf_generator w) (bf_seedIndex w)) 0 0 of
               None \<Rightarrow> (w\<lparr>bf_pc := OutOfBounds\<rparr>, None)
             | Some (m, g) \<Rightarrow>
                 (w\<lparr>bf_pc := FlagCheck, bf_generator := g, bf_matchesFound := m\<rparr>, None))
          else (w\<lparr>bf_pc := Finished\<rparr>, None)
      | FlagCheck \<Rightarrow>
          if flag then (w\<lparr>bf_pc := Finished\<rparr>, None) else (w\<lparr>bf_pc := Record\<rparr>, None)
      | Record \<Rightarrow>
          (if confidence_reaches minimumConfidence (bf_matchesFound w) observedOutputs
           then w\<lparr>bf_pc := Signal, bf_status := bf_seedIndex w - bf_startingSeed w,
                  bf_answers := bf_answers w @
                    [(bf_seedIndex w, confidence (bf_matchesFound w) observedOutputs)]\<rparr>
           else w\<lparr>bf_pc := Signal, bf_status := bf_seedIndex w - bf_startingSeed w\<rparr>,
           None)
      | Signal \<Rightarrow>
          (w\<lparr>bf_pc := LoopTest, bf_seedIndex := bf_seedIndex w + 1\<rparr>,
           if unat (bf_matchesFound w) = length observedOutputs then Some True else None)
      | Finished \<Rightarrow> (w, None)
      | OutOfBounds \<Rightarrow> (w, None))"

section \<open>Progress reporter: \<^verbatim>\<open>StatusThread\<close>\<close>

text \<open>
  \<^verbatim>\<open>StatusThread\<close> runs on the main thread while the workers run. Its steps:
  \<^item> \<open>WhileTest\<close>: the read of \<^verbatim>\<open>isCompleted\<close> in the loop condition (line 138);
  \<^item> \<open>SumLoop\<close>: one round of the loop that adds \<^verbatim>\<open>status->at(index)\<close> to \<^verbatim>\<open>sum\<close>
    (lines 141 to 144), an \<^verbatim>\<open>unsigned int\<close> that wraps;
  \<^item> \<open>Store\<close>: \<^verbatim>\<open>percent\<close> and the store
    \<^verbatim>\<open>isCompleted = (100.0 <= percent)\<close> (lines 145 and 146); the printing and the
    sleep of 150 ms change no data;
  \<^item> \<open>Stopped\<close>: the loop has ended.

  \<open>percent_complete\<close> is the test \<^verbatim>\<open>100.0 <= ((double) sum / (double) totalWork) * 100.0\<close>.
  When \<^verbatim>\<open>totalWork\<close> is 0 the quotient is a NaN for \<^verbatim>\<open>sum\<close> 0, where the test is
  false, and infinite otherwise, where it is true. Both operands are below \<open>2\<^sup>3\<^sup>2\<close>, so
  the rounded quotient is at least 1 exactly when \<^verbatim>\<open>totalWork <= sum\<close>, and the test on
  the doubles agrees with the one on the reals.
\<close>

datatype status_location = WhileTest | SumLoop | Store | Stopped

record status_thread =
  st_pc :: status_location
  st_index :: u32
  st_sum :: u32

definition percent_complete :: "u32 \<Rightarrow> u32 \<Rightarrow> bool" where
  "percent_complete sum_u32 totalWork \<longleftrightarrow>
     (if totalWork = 0 then sum_u32 \<noteq> 0
      else 100 \<le> real (unat sum_u32) / real (unat totalWork) * 100)"

definition StatusThread_step ::
  "u32 \<Rightarrow> bool \<Rightarrow> u32 list \<Rightarrow> status_thread \<Rightarrow> status_thread \<times> bool option" where
  "StatusThread_step totalWork flag status r =
     (case st_pc r of
        WhileTest \<Rightarrow>
          if \<not> flag then (r\<lparr>st_pc := SumLoop, st_index := 0, st_sum := 0\<rparr>, None)
          else (r\<lparr>st_pc := Stopped\<rparr>, None)
      | SumLoop \<Rightarrow>
          if unat (st_index r) < length status
          then (r\<lparr>st_index := st_index r + 1,
                  st_sum := st_sum r + status ! unat (st_index r)\<rparr>, None)
          else (r\<lparr>st_pc := Store\<rparr>, None)
      | Store \<Rightarrow> (r\<lparr>st_pc := WhileTest\<rparr>, Some (percent_complete (st_sum r) totalWork))
      | Stopped \<Rightarrow> (r, None))"

section \<open>Seed-search coordinator: \<^verbatim>\<open>SpawnThreads\<close> and \<^verbatim>\<open>FindSeed\<close>\<close>

text \<open>
  The spawning loop of \<^verbatim>\<open>SpawnThreads\<close>: worker \<^verbatim>\<open>id\<close> is started on
  \<^verbatim>\<open>(startAt, startAt + labor.at(id))\<close>, and \<^verbatim>\<open>startAt\<close> advances by \<^verbatim>\<open>labor.at(id)\<close>.
  The result lists the pair \<^verbatim>\<open>(startingSeed, endingSeed)\<close> passed to each worker.
\<close>

fun SpawnThreads_loop :: "u32 list \<Rightarrow> u32 \<Rightarrow> (u32 \<times> u32) list" where
  "SpawnThreads_loop [] startAt = []"
| "SpawnThreads_loop (l # labor) startAt =
     (startAt, startAt + l) # SpawnThreads_loop labor (startAt + l)"

definition SpawnThreads_intervals :: "u32 \<Rightarrow> u32 \<Rightarrow> u32 \<Rightarrow> (u32 \<times> u32) list option" where
  "SpawnThreads_intervals threads lowerBoundSeed upperBoundSeed =
     (case DivisionOfLabor (upperBoundSeed - lowerBoundSeed) threads of
        None \<Rightarrow> None
      | Some labor \<Rightarrow> Some (SpawnThreads_loop labor lowerBoundSeed))"

text \<open>
  The program while the search runs: the shared flag, the workers and the reporter.
  \<^verbatim>\<open>BruteForce\<close> starts each worker with a fresh generator, an empty answer list and
  \<^verbatim>\<open>seedIndex = startingSeed\<close>; \<^verbatim>\<open>status\<close> starts as zeros and \<^verbatim>\<open>isCompleted\<close> as false.
\<close>

record 'g search =
  isCompleted :: bool
  workers :: "'g worker list"
  reporter :: status_thread

definition BruteForce_start :: "'g PRNG \<Rightarrow> u32 \<times> u32 \<Rightarrow> 'g worker" where
  "BruteForce_start P interval =
     \<lparr>bf_pc = LoopTest, bf_generator = getInstance P,
      bf_startingSeed = fst interval, bf_endingSeed = snd interval,
      bf_seedIndex = fst interval, bf_matchesFound = 0, bf_answers = [], bf_status = 0\<rparr>"

definition SpawnThreads :: "'g PRNG \<Rightarrow> u32 \<Rightarrow> u32 \<Rightarrow> u32 \<Rightarrow> 'g search option" where
  "SpawnThreads P threads lowerBoundSeed upperBoundSeed =
     (case SpawnThreads_intervals threads lowerBoundSeed upperBoundSeed of
        None \<Rightarrow> None
      | Some intervals \<Rightarrow>
          Some \<lparr>isCompleted = False,
                workers = map (BruteForce_start P) intervals,
                reporter = \<lparr>st_pc = WhileTest, st_index = 0, st_sum = 0\<rparr>\<rparr>)"

text \<open>
  The threads run interleaved. A schedule names the thread that makes each step; a step
  of a thread reads and writes \<^verbatim>\<open>isCompleted\<close> at once.
\<close>

datatype thread = Worker nat | Reporter

definition store_flag :: "bool option \<Rightarrow> bool \<Rightarrow> bool" where
  "store_flag written flag = (case written of None \<Rightarrow> flag | Some b \<Rightarrow> b)"

definition step ::
  "'g PRNG \<Rightarrow> u32 list \<Rightarrow> real \<Rightarrow> u32 \<Rightarrow> u32 \<Rightarrow> thread \<Rightarrow> 'g search \<Rightarrow> 'g search" where
  "step P observedOutputs minimumConfidence depth totalWork t c =
     (case t of
        Worker i \<Rightarrow>
          if i < length (workers c) then
            (let r = BruteForce_step P observedOutputs minimumConfidence depth
                       (isCompleted c) (workers c ! i)
             in c\<lparr>isCompleted := store_flag (snd r) (isCompleted c),
                  workers := (workers c)[i := fst r]\<rparr>)
          else c
      | Reporter \<Rightarrow>
          (let r = StatusThread_step totalWork (isCompleted c)
                     (map bf_status (workers c)) (reporter c)
           in c\<lparr>isCompleted := store_flag (snd r) (isCompleted c), reporter := fst r\<rparr>))"

definition run ::
  "'g PRNG \<Rightarrow> u32 list \<Rightarrow> real \<Rightarrow> u32 \<Rightarrow> u32 \<Rightarrow> thread list \<Rightarrow> 'g search \<Rightarrow> 'g search" where
  "run P observedOutputs minimumConfidence depth totalWork schedule c =
     fold (step P observedOutputs minimumConfidence depth totalWork) schedule c"

text \<open>
  \<^verbatim>\<open>FindSeed\<close> prints the answers after the workers have been joined, worker by
  worker and in the order of insertion.
\<close>

definition FindSeed_answers :: "'g search \<Rightarrow> (u32 \<times> real) list" where
  "FindSeed_answers c = concat (map bf_answers (workers c))"

text \<open>
  What holds of a worker at every moment of a search: \<^verbatim>\<open>matchesFound\<close> does not exceed
  the number of observations, and every recorded confidence lies in \<open>(0, 100]\<close>.
\<close>

definition worker_ok :: "u32 list \<Rightarrow> 'g worker \<Rightarrow> bool" where
  "worker_ok observedOutputs w \<longleftrightarrow>
     unat (bf_matchesFound w) \<le> length observedOutputs \<and>
     list_all (\<lambda>a. 0 < snd a \<and> snd a \<le> 100) (bf_answers w)"

text \<open>
  What a worker has recorded so far: every seed from \<^verbatim>\<open>startingSeed\<close> up to, and not
  including, \<^verbatim>\<open>seedIndex\<close> whose first \<^verbatim>\<open>depth\<close> outputs contain the observations in
  order stands in the answer list with confidence 100; and when \<^verbatim>\<open>seedIndex\<close> itself is
  such a seed, \<^verbatim>\<open>matchesFound\<close> is the number of observations after the depth loop, and
  the seed has been recorded once the worker is about to leave the round.
\<close>

definition worker_recorded :: "'g PRNG \<Rightarrow> u32 list \<Rightarrow> u32 \<Rightarrow> 'g worker \<Rightarrow> bool" where
  "worker_recorded P observedOutputs depth w \<longleftrightarrow>
     (\<forall>s. bf_startingSeed w \<le> s \<and> s < bf_seedIndex w \<and>
          subseq observedOutputs (GenerateSample P s depth) \<longrightarrow>
          (s, 100) \<in> set (bf_answers w)) \<and>
     (subseq observedOutputs (GenerateSample P (bf_seedIndex w) depth) \<longrightarrow>
        (bf_pc w = FlagCheck \<or> bf_pc w = Record \<longrightarrow>
           unat (bf_matchesFound w) = length observedOutputs) \<and>
        (bf_pc w = Signal \<longrightarrow> (bf_seedIndex w, 100) \<in> set (bf_answers w)))"

text \<open>
  Worker \<open>i\<close> reads \<^verbatim>\<open>isCompleted\<close> as false at each of the checks it makes along a
  schedule that starts in \<open>c\<close>.
\<close>

fun reads_unset ::
  "'g PRNG \<Rightarrow> u32 list \<Rightarrow> real \<Rightarrow> u32 \<Rightarrow> u32 \<Rightarrow> nat \<Rightarrow> thread list \<Rightarrow> 'g search \<Rightarrow> bool" where
  "reads_unset P observedOutputs minimumConfidence depth totalWork i [] c = True"
| "reads_unset P observedOutputs minimumConfidence depth totalWork i (t # schedule) c =
     ((t = Worker i \<and> bf_pc (workers c ! i) = FlagCheck \<longrightarrow> \<not> isCompleted c) \<and>
      reads_unset P observedOutputs minimumConfidence depth totalWork i schedule
        (step P observedOutputs minimumConfidence depth totalWork t c))"

section \<open>State inference: \<^verbatim>\<open>InferState\<close>\<close>

text \<open>The lines \<^verbatim>\<open>InferState\<close> prints.\<close>

datatype message =
    Info_Trying_state_inference
  | Warn_Not_enough_observed_values
  | Warn_Try_again_with_more_than u32
  | Success_Found_seed u32
  | Success_Found_state
  | Success_state_word u32
  | Success_Best_state_guess real
  | Info_State_Inference_failed

text \<open>
  The two scoring loops of a window. Their counters are \<^verbatim>\<open>uint32_t\<close> and are compared
  with vector sizes, so a loop over a vector of \<open>2\<^sup>3\<^sup>2\<close> or more predictions need not end:
  the loops are partial functions, and \<open>None\<close> is a loop that does not return. The
  reads of \<^verbatim>\<open>observedOutputs\<close> are in bounds: the forward loop tests the index, and the
  backward loop starts at the window start and counts down.
\<close>

partial_function (option) InferState_forward ::
  "u32 list \<Rightarrow> u32 list \<Rightarrow> u32 \<Rightarrow> u32 \<Rightarrow> u32 \<Rightarrow> u32 option" where
  "InferState_forward observedOutputs predictions_forward index_obs index_pred matchesFound =
     (if unat index_obs < length observedOutputs \<and> unat index_pred < length predictions_forward
      then
        (if observedOutputs ! unat index_obs = predictions_forward ! unat index_pred
         then InferState_forward observedOutputs predictions_forward
                (index_obs + 1) (index_pred + 1) (matchesFound + 1)
         else InferState_forward observedOutputs predictions_forward
                index_obs (index_pred + 1) matchesFound)
      else Some matchesFound)"

partial_function (option) InferState_backward ::
  "u32 list \<Rightarrow> u32 list \<Rightarrow> u32 \<Rightarrow> u32 \<Rightarrow> u32 \<Rightarrow> u32 option" where
  "InferState_backward observedOutputs predictions_backward index_obs index_pred matchesFound =
     (if 0 < index_obs \<and> unat index_pred < length predictions_backward
      then
        (if observedOutputs ! unat index_obs = predictions_backward ! unat index_pred
         then InferState_backward observedOutputs predictions_backward
                (index_obs - 1) (index_pred + 1) (matchesFound + 1)
         else InferState_backward observedOutputs predictions_backward
                index_obs (index_pred + 1) matchesFound)
      else Some matchesFound)"

declare InferState_forward.simps [code]
declare InferState_backward.simps [code]

text \<open>
  The body of the window loop up to the end of the scoring (lines 257 to 303): the
  window \<^verbatim>\<open>state\<close>, the evidence before and after it, \<^verbatim>\<open>setState\<close>, \<^verbatim>\<open>setEvidence\<close>,
  \<^verbatim>\<open>tune\<close>, the two predictions and the two scoring loops. The argument of
  \<^verbatim>\<open>predictForward\<close> is computed at the width of a size and passed as \<^verbatim>\<open>uint32_t\<close>.
  The result is \<^verbatim>\<open>matchesFound\<close> and the generator.
\<close>

definition InferState_window ::
  "'g PRNG \<Rightarrow> u32 list \<Rightarrow> u32 \<Rightarrow> 'g \<Rightarrow> u32 \<Rightarrow> (u32 \<times> 'g) option" where
  "InferState_window P observedOutputs stateSize g i =
     (let state = take (unat stateSize) (drop (unat i) observedOutputs);
          evidenceForward = take (unat i) observedOutputs;
          evidenceBackward = drop (unat i + unat stateSize + 1) observedOutputs;
          g1 = tune P (setEvidence P (setState P g state) observedOutputs)
                 evidenceForward evidenceBackward;
          forward = predictForward P g1
                      (of_nat ((length observedOutputs - unat stateSize) - unat i));
          backward = predictBackward P (snd forward) i
      in Option.bind
           (InferState_forward observedOutputs (fst forward) (i + stateSize) 0 0)
           (\<lambda>matchesFound.
              Option.bind
                (InferState_backward observedOutputs (fst backward) i 0 matchesFound)
                (\<lambda>matchesFound. Some (matchesFound, snd backward))))"

text \<open>
  What \<^verbatim>\<open>InferState\<close> hands back: the lines printed, the value
  returned, and the final values of its locals \<^verbatim>\<open>scores\<close> and \<^verbatim>\<open>best_state\<close>;
  \<open>windows\<close> lists the window starts \<^verbatim>\<open>i\<close> for which the loop body has run.
\<close>

record inference =
  messages :: "message list"
  matched :: bool
  scores :: "real list"
  best_state :: "u32 list"
  windows :: "u32 list"

text \<open>
  The perfect guess (lines 306 to 324): \<^verbatim>\<open>reverseToSeed(&outSeed, 10000)\<close> with
  \<^verbatim>\<open>outSeed = 0\<close>, then the seed or the state words.
\<close>

definition InferState_perfect :: "'g PRNG \<Rightarrow> 'g \<Rightarrow> message list" where
  "InferState_perfect P g =
     (let r = reverseToSeed P g 0 10000 in
      if fst r then [Success_Found_seed (fst (snd r))]
      else Success_Found_state # map Success_state_word (getState P (snd (snd r))))"

text \<open>The analysis of the scores after the loop (lines 334 to 348).\<close>

definition InferState_analyze :: "'g PRNG \<Rightarrow> real \<Rightarrow> 'g \<Rightarrow> message list" where
  "InferState_analyze P highscore g =
     (if 0 < highscore
      then Success_Best_state_guess highscore # map Success_state_word (getState P g)
      else [Info_State_Inference_failed])"

text \<open>
  One round of the window loop (lines 255 to 332), after its test. \<^verbatim>\<open>highscore\<close> is a
  local of the function that the round reads. The score is
  \<^verbatim>\<open>(double)(matchesFound*100) / (double)(observedOutputs.size() - stateSize)\<close>, the
  product being taken on \<^verbatim>\<open>uint32_t\<close>. It is kept as the exact quotient: the program
  only compares it with \<^verbatim>\<open>highscore\<close>, and the quotient of a 32-bit count by a size
  rounds to a positive double exactly when it is positive. The first component of the
  result tells whether the round has returned from \<^verbatim>\<open>InferState\<close>; the others are the
  generator and the locals after the round.
\<close>

definition InferState_score :: "u32 list \<Rightarrow> u32 \<Rightarrow> u32 \<Rightarrow> real" where
  "InferState_score observedOutputs stateSize matchesFound =
     real (unat (matchesFound * 100)) / real (length observedOutputs - unat stateSize)"

definition InferState_round ::
  "'g PRNG \<Rightarrow> u32 list \<Rightarrow> u32 \<Rightarrow> real \<Rightarrow> 'g \<Rightarrow> u32 \<Rightarrow> inference \<Rightarrow>
   (bool \<times> 'g \<times> inference) option" where
  "InferState_round P observedOutputs stateSize highscore g i acc =
     Option.bind (InferState_window P observedOutputs stateSize g i)
       (\<lambda>r. Some
          (if unat (fst r) = length observedOutputs - unat stateSize
           then (True, snd r,
                 acc\<lparr>messages := messages acc @ InferState_perfect P (snd r), matched := True,
                      windows := windows acc @ [i]\<rparr>)
           else (False, snd r,
                 acc\<lparr>scores := scores acc @
                        [InferState_score observedOutputs stateSize (fst r)],
                      best_state :=
                        (if highscore < InferState_score observedOutputs stateSize (fst r)
                         then getState P (snd r) else best_state acc),
                      windows := windows acc @ [i]\<rparr>)))"

text \<open>
  The window loop: \<^verbatim>\<open>i\<close> is a \<^verbatim>\<open>uint32_t\<close> compared with a difference of sizes. When
  the test fails the scores are analysed and \<^verbatim>\<open>InferState\<close> returns false.
\<close>

partial_function (option) InferState_loop ::
  "'g PRNG \<Rightarrow> u32 list \<Rightarrow> u32 \<Rightarrow> real \<Rightarrow> 'g \<Rightarrow> u32 \<Rightarrow> inference \<Rightarrow> inference option" where
  "InferState_loop P observedOutputs stateSize highscore g i acc =
     (if unat i < length observedOutputs - unat stateSize then
        Option.bind (InferState_round P observedOutputs stateSize highscore g i acc)
          (\<lambda>r. if fst r then Some (snd (snd r))
                else InferState_loop P observedOutputs stateSize highscore
                       (fst (snd r)) (i + 1) (snd (snd r)))
      else Some (acc\<lparr>messages := messages acc @ InferState_analyze P highscore g,
                      matched := False\<rparr>))"

declare InferState_loop.simps [code]

text \<open>
  The generator and the locals on entry to round \<open>j\<close> of the loop, for a loop that gets
  there: the test has held and no round has returned before.
\<close>

fun InferState_rounds ::
  "'g PRNG \<Rightarrow> u32 list \<Rightarrow> u32 \<Rightarrow> real \<Rightarrow> nat \<Rightarrow> ('g \<times> inference) option" where
  "InferState_rounds P observedOutputs stateSize highscore 0 =
     Some (getInstance P,
           \<lparr>messages = [Info_Trying_state_inference], matched = False, scores = [],
               best_state = [], windows = []\<rparr>)"
| "InferState_rounds P observedOutputs stateSize highscore (Suc j) =
     Option.bind (InferState_rounds P observedOutputs stateSize highscore j)
       (\<lambda>s. if unat (of_nat j :: u32) < length observedOutputs - unat stateSize
             then Option.bind
                    (InferState_round P observedOutputs stateSize highscore
                       (fst s) (of_nat j) (snd s))
                    (\<lambda>r. if fst r then None else Some (snd r))
             else None)"

text \<open>
  \<^verbatim>\<open>InferState(rng)\<close>: the guard on the number of observations, then the loop with
  \<^verbatim>\<open>highscore = 0.0\<close> and empty \<^verbatim>\<open>scores\<close> and \<^verbatim>\<open>best_state\<close>.
\<close>

definition InferState :: "'g PRNG \<Rightarrow> u32 list \<Rightarrow> inference option" where
  "InferState P observedOutputs =
     (if length observedOutputs \<le> unat (getStateSize P (getInstance P)) then
        Some \<lparr>messages = [Info_Trying_state_inference, Warn_Not_enough_observed_values,
                            Warn_Try_again_with_more_than (getStateSize P (getInstance P))],
              matched = False, scores = [], best_state = [], windows = []\<rparr>
      else InferState_loop P observedOutputs (getStateSize P (getInstance P)) 0
             (getInstance P) 0
             \<lparr>messages = [Info_Trying_state_inference], matched = False, scores = [],
               best_state = [], windows = []\<rparr>)"

section \<open>The end of \<^verbatim>\<open>main\<close>\<close>

text \<open>
  \<^verbatim>\<open>main\<close> after the options have been read (lines 459 to 478): with a seed given by
  \<^verbatim>\<open>-g\<close> it prints a sample; without observations it fails; otherwise it runs
  \<^verbatim>\<open>InferState\<close> and, unless that returns true, \<^verbatim>\<open>FindSeed\<close>, which starts the search
  with \<^verbatim>\<open>SpawnThreads\<close>.
\<close>

datatype 'g outcome =
    Sample "u32 list"
  | No_input
  | Inference_only inference
  | Inference_then_FindSeed inference "'g search option"

definition main_recover ::
  "'g PRNG \<Rightarrow> u32 \<Rightarrow> u32 \<Rightarrow> u32 \<Rightarrow> u32 \<Rightarrow> u32 \<Rightarrow> u32 list \<Rightarrow> 'g outcome option" where
  "main_recover P threads lowerBoundSeed upperBoundSeed depth seed' observedOutputs =
     (if seed' \<noteq> 0 then Some (Sample (GenerateSample P seed' depth))
      else if observedOutputs = [] then Some No_input
      else
        (case InferState P observedOutputs of
           None \<Rightarrow> None
         | Some r \<Rightarrow>
             if matched r then Some (Inference_only r)
             else Some (Inference_then_FindSeed r
                          (SpawnThreads P threads lowerBoundSeed upperBoundSeed))))"

section \<open>A concrete generator for the examples\<close>

text \<open>
  The engine takes its generator through the interface, so a concrete run needs an
  implementation. \<open>Counter\<close> is a small one, used only as the input of the examples
  below: seeding with \<open>v\<close> makes \<open>v\<close> the state, each call of \<^verbatim>\<open>random\<close> increments
  the state and returns it, the state is one word, \<^verbatim>\<open>predictForward(n)\<close> lists the
  next \<open>n\<close> outputs, \<^verbatim>\<open>predictBackward(n)\<close> lists the last \<open>n\<close> outputs with the most
  recent one (the state itself) first, and the seed of a state is the state minus one.
  \<open>Counter_irreversible\<close> is the same generator with a \<^verbatim>\<open>reverseToSeed\<close> that fails.
\<close>

definition Counter :: "u32 PRNG" where
  "Counter =
     \<lparr>getInstance = 0,
      seed = (\<lambda>g v. v),
      random_next = (\<lambda>g. (g + 1, g + 1)),
      getStateSize = (\<lambda>g. 1),
      setState = (\<lambda>g ws. case ws of [] \<Rightarrow> g | w # _ \<Rightarrow> w),
      getState = (\<lambda>g. [g]),
      setEvidence = (\<lambda>g obs. g),
      tune = (\<lambda>g fwd bwd. g),
      predictForward = (\<lambda>g n. (map (\<lambda>k. g + 1 + of_nat k) [0..<unat n], g)),
      predictBackward = (\<lambda>g n. (map (\<lambda>k. g - of_nat k) [0..<unat n], g)),
      reverseToSeed = (\<lambda>g out max_iter. (True, g - 1, g))\<rparr>"

definition Counter_irreversible :: "u32 PRNG" where
  "Counter_irreversible = Counter\<lparr>reverseToSeed := (\<lambda>g out max_iter. (False, out, g))\<rparr>"

section \<open>Properties of the rounding\<close>

text \<open>
  Rounding is monotone, and it leaves the doubles 0, 1 and 100 as they are. The first
  two lemmas let the simplifier run \<open>binade\<close> on a numeral.
\<close>

lemma binade_up_numeral:
  "binade_up x k (numeral n) =
     (if 2 powi (k + 1) \<le> x then binade_up x (k + 1) (pred_numeral n) else k)"
  by (simp add: numeral_eq_Suc)

lemma binade_down_numeral:
  "binade_down x k (numeral n) =
     (if 2 powi k \<le> x then k else binade_down x (k - 1) (pred_numeral n))"
  by (simp add: numeral_eq_Suc)

lemmas double_defs = double_round_def double_round_pos_def binade_def binade_up_numeral
  binade_down_numeral round_to_even_def Let_def

lemma round_to_even_of_int: "round_to_even (of_int k) = k"
  by (simp add: round_to_even_def)

lemma round_to_even_bounds: "\<lfloor>x\<rfloor> \<le> round_to_even x \<and> round_to_even x \<le> \<lfloor>x\<rfloor> + 1"
  by (simp add: round_to_even_def)

lemma round_to_even_mono:
  assumes "x \<le> y"
  shows "round_to_even x \<le> round_to_even y"
proof (cases "\<lfloor>x\<rfloor> = \<lfloor>y\<rfloor>")
  case True
  with assms have "x - of_int \<lfloor>x\<rfloor> \<le> y - of_int \<lfloor>y\<rfloor>"
    by simp
  with True show ?thesis
    by (auto simp: round_to_even_def)
next
  case False
  with assms have "\<lfloor>x\<rfloor> + 1 \<le> \<lfloor>y\<rfloor>"
    using floor_mono [of x y] by linarith
  with round_to_even_bounds [of x] round_to_even_bounds [of y] show ?thesis
    by linarith
qed

lemma binade_up_props:
  "2 powi k \<le> x \<Longrightarrow>
   k \<le> binade_up x k n \<and> binade_up x k n \<le> k + int n \<and> 2 powi (binade_up x k n) \<le> x \<and>
   (binade_up x k n < k + int n \<longrightarrow> x < 2 powi (binade_up x k n + 1))"
proof (induction n arbitrary: k)
  case 0
  then show ?case by simp
next
  case (Suc n)
  show ?case
  proof (cases "2 powi (k + 1) \<le> x")
    case True
    from Suc.IH [OF True] True show ?thesis
      by auto
  next
    case False
    with Suc.prems show ?thesis
      by auto
  qed
qed

lemma binade_down_props:
  "x < 2 powi (k + 1) \<Longrightarrow>
   k - int n \<le> binade_down x k n \<and> binade_down x k n \<le> k \<and>
   x < 2 powi (binade_down x k n + 1) \<and>
   (k - int n < binade_down x k n \<longrightarrow> 2 powi (binade_down x k n) \<le> x)"
proof (induction n arbitrary: k)
  case 0
  then show ?case by simp
next
  case (Suc n)
  show ?case
  proof (cases "2 powi k \<le> x")
    case True
    with Suc.prems show ?thesis
      by auto
  next
    case False
    then have "x < 2 powi (k - 1 + 1)"
      by simp
    from Suc.IH [OF this] False show ?thesis
      by auto
  qed
qed

lemma binade_range: "- 1074 \<le> binade x \<and> binade x \<le> 1023"
proof (cases "1 \<le> x")
  case True
  then have "2 powi 0 \<le> x" by simp
  from binade_up_props [OF this, of 1023] True show ?thesis
    by (simp add: binade_def)
next
  case False
  then have "x < 2 powi (- 1 + 1)" by simp
  from binade_down_props [OF this, of 1073] False show ?thesis
    by (simp add: binade_def)
qed

lemma binade_lower: "- 1074 < binade x \<Longrightarrow> 2 powi (binade x) \<le> x"
proof (cases "1 \<le> x")
  case True
  then have "2 powi 0 \<le> x" by simp
  from binade_up_props [OF this, of 1023] True show ?thesis
    by (simp add: binade_def)
next
  case False
  assume low: "- 1074 < binade x"
  from False have "x < 2 powi (- 1 + 1)" by simp
  from binade_down_props [OF this, of 1073] False low show ?thesis
    by (simp add: binade_def)
qed

lemma binade_upper: "binade x < 1023 \<Longrightarrow> x < 2 powi (binade x + 1)"
proof (cases "1 \<le> x")
  case True
  assume up: "binade x < 1023"
  from True have "2 powi 0 \<le> x" by simp
  from binade_up_props [OF this, of 1023] True up show ?thesis
    by (simp add: binade_def)
next
  case False
  then have "x < 2 powi (- 1 + 1)" by simp
  from binade_down_props [OF this, of 1073] False show ?thesis
    by (simp add: binade_def)
qed

lemma binade_mono:
  assumes "x \<le> y"
  shows "binade x \<le> binade y"
proof (rule ccontr)
  assume "\<not> binade x \<le> binade y"
  then have less: "binade y < binade x" by simp
  with binade_range [of x] binade_range [of y]
  have "binade y < 1023" and "- 1074 < binade x"
    by linarith+
  then have "y < 2 powi (binade y + 1)" and "2 powi (binade x) \<le> x"
    by (simp_all add: binade_upper binade_lower)
  moreover from less have "(2::real) powi (binade y + 1) \<le> 2 powi (binade x)"
    by (intro power_int_increasing) simp_all
  ultimately show False
    using assms by linarith
qed

lemma double_round_pos_mono:
  assumes "x \<le> y"
  shows "double_round_pos x \<le> double_round_pos y"
proof -
  define ex where "ex = max (binade x - 52) (- 1074)"
  define ey where "ey = max (binade y - 52) (- 1074)"
  have rx: "double_round_pos x = of_int (round_to_even (x / 2 powi ex)) * 2 powi ex"
    and ry: "double_round_pos y = of_int (round_to_even (y / 2 powi ey)) * 2 powi ey"
    by (simp_all add: double_round_pos_def ex_def ey_def Let_def)
  have le: "ex \<le> ey"
    using binade_mono [OF assms] by (simp add: ex_def ey_def)
  show ?thesis
  proof (cases "ex = ey")
    case True
    from assms have "x / 2 powi ey \<le> y / 2 powi ey"
      by (intro divide_right_mono) simp_all
    then have "round_to_even (x / 2 powi ey) \<le> round_to_even (y / 2 powi ey)"
      by (rule round_to_even_mono)
    then have "(of_int (round_to_even (x / 2 powi ey)) :: real) \<le>
               of_int (round_to_even (y / 2 powi ey))"
      by simp
    then show ?thesis
      unfolding rx ry True by (intro mult_right_mono) simp_all
  next
    case False
    with le have less: "ex < ey" by simp
    then have ey: "ey = binade y - 52" and by_low: "- 1074 < binade y"
      by (auto simp: ex_def ey_def)
    from less have bless: "binade x < binade y"
      by (auto simp: ex_def ey_def)
    with binade_range [of y] have "binade x < 1023"
      by linarith
    then have x_up: "x < 2 powi (binade x + 1)"
      by (rule binade_upper)
    from by_low have y_low: "2 powi (binade y) \<le> y"
      by (rule binade_lower)
    have "(2::real) powi (binade y) = 2 powi 52 * 2 powi ey"
      unfolding ey by (subst power_int_add [symmetric]) simp_all
    then have "(of_int (2 ^ 52) :: real) = 2 powi (binade y) / 2 powi ey"
      by simp
    also have "\<dots> \<le> y / 2 powi ey"
      using y_low by (intro divide_right_mono) simp_all
    finally have "round_to_even (of_int (2 ^ 52)) \<le> round_to_even (y / 2 powi ey)"
      by (rule round_to_even_mono)
    then have "(2::real) ^ 52 \<le> of_int (round_to_even (y / 2 powi ey))"
      unfolding round_to_even_of_int by (metis of_int_le_iff of_int_numeral of_int_power)
    then have "2 ^ 52 * 2 powi ey \<le> of_int (round_to_even (y / 2 powi ey)) * (2::real) powi ey"
      by (intro mult_right_mono) simp_all
    with \<open>(2::real) powi (binade y) = 2 powi 52 * 2 powi ey\<close>
    have y_ge: "2 powi (binade y) \<le> double_round_pos y"
      unfolding ry by simp
    define d where "d = nat (binade x + 1 - ex)"
    have "ex \<le> binade x + 1"
      using binade_range [of x] by (auto simp: ex_def)
    then have d: "int d = binade x + 1 - ex"
      by (simp add: d_def)
    have split: "(2::real) powi (binade x + 1) = 2 ^ d * 2 powi ex"
    proof -
      have "(2::real) powi (binade x + 1) = 2 powi (int d + ex)"
        using d by simp
      also have "\<dots> = 2 powi (int d) * 2 powi ex"
        by (rule power_int_add) simp
      finally show ?thesis by simp
    qed
    have "x / 2 powi ex \<le> 2 powi (binade x + 1) / 2 powi ex"
      using x_up by (intro divide_right_mono) simp_all
    also have "\<dots> = of_int (2 ^ d)"
      unfolding split by simp
    finally have "round_to_even (x / 2 powi ex) \<le> round_to_even (of_int (2 ^ d))"
      by (rule round_to_even_mono)
    then have "of_int (round_to_even (x / 2 powi ex)) \<le> (2::real) ^ d"
      unfolding round_to_even_of_int by (metis of_int_le_iff of_int_numeral of_int_power)
    then have "of_int (round_to_even (x / 2 powi ex)) * 2 powi ex \<le> (2::real) ^ d * 2 powi ex"
      by (intro mult_right_mono) simp_all
    then have "double_round_pos x \<le> 2 powi (binade x + 1)"
      unfolding rx split .
    also from bless have "(2::real) powi (binade x + 1) \<le> 2 powi (binade y)"
      by (intro power_int_increasing) simp_all
    also note y_ge
    finally show ?thesis .
  qed
qed

lemma double_round_pos_nonneg: "0 \<le> x \<Longrightarrow> 0 \<le> double_round_pos x"
proof -
  assume "0 \<le> x"
  then have "0 \<le> x / 2 powi (max (binade x - 52) (- 1074))"
    by simp
  then have "0 \<le> \<lfloor>x / 2 powi (max (binade x - 52) (- 1074))\<rfloor>"
    by simp
  with round_to_even_bounds [of "x / 2 powi (max (binade x - 52) (- 1074))"]
  have "0 \<le> round_to_even (x / 2 powi (max (binade x - 52) (- 1074)))"
    by linarith
  then show ?thesis
    by (simp add: double_round_pos_def Let_def)
qed

lemma double_round_nonneg: "0 \<le> x \<Longrightarrow> 0 \<le> double_round x"
  by (simp add: double_round_def double_round_pos_nonneg)

lemma double_round_mono:
  assumes "x \<le> y"
  shows "double_round x \<le> double_round y"
proof -
  consider "0 < x" | "x \<le> 0" "0 \<le> y" | "y < 0"
    by linarith
  then show ?thesis
  proof cases
    case 1
    with assms show ?thesis
      by (simp add: double_round_def double_round_pos_mono)
  next
    case 2
    have "double_round x \<le> 0"
      using 2(1) double_round_pos_nonneg [of "- x"] by (simp add: double_round_def)
    also have "0 \<le> double_round y"
      using 2(2) by (rule double_round_nonneg)
    finally show ?thesis .
  next
    case 3
    with assms have "double_round_pos (- y) \<le> double_round_pos (- x)"
      by (intro double_round_pos_mono) simp
    with 3 assms show ?thesis
      by (simp add: double_round_def)
  qed
qed

lemma double_round_1: "double_round 1 = 1"
  by (simp add: double_defs)

lemma double_round_100: "double_round 100 = 100"
  by (simp add: double_defs)

lemma double_round_0: "double_round 0 = 0"
  by (simp add: double_round_def)

section \<open>Properties of the work partitioner\<close>

lemma u32_succ: "(index::u32) < n \<Longrightarrow> unat (index + 1) = unat index + 1"
proof -
  assume "index < n"
  then have "unat index < unat n" by (simp add: word_less_nat_alt)
  moreover have "unat n < 2 ^ 32" using unsigned_less [of n] by simp
  ultimately show ?thesis by (simp add: unat_word_ariths)
qed

lemma u32_pred: "(0::u32) < n \<Longrightarrow> unat (n - 1) = unat n - 1"
  by (simp add: unat_minus_one word_neq_0_conv)

lemma DivisionOfLabor_loop_length:
  "length (DivisionOfLabor_loop work n index leftover labor) = length labor"
  by (induction work n index leftover labor rule: DivisionOfLabor_loop.induct)
     (simp add: DivisionOfLabor_loop.simps [of _ _ index for index])

lemma DivisionOfLabor_loop_nth:
  "length labor = unat n \<Longrightarrow> j < unat n \<Longrightarrow>
   DivisionOfLabor_loop work n index leftover labor ! j =
     (if j < unat index then labor ! j
      else if j - unat index < unat leftover then work + 1 else work)"
proof (induction work n index leftover labor rule: DivisionOfLabor_loop.induct)
  case (1 work n index leftover labor)
  show ?case
  proof (cases "index < n")
    case False
    then have "unat n \<le> unat index" by (simp add: word_less_nat_alt)
    with False "1.prems" show ?thesis by (simp add: DivisionOfLabor_loop.simps [of _ _ index])
  next
    case lt: True
    then have succ: "unat (index + 1) = unat index + 1" by (rule u32_succ)
    show ?thesis
    proof (cases "0 < leftover")
      case True
      then have pred: "unat (leftover - 1) = unat leftover - 1" by (rule u32_pred)
      from True have pos: "0 < unat leftover" by (simp add: word_less_nat_alt)
      have "DivisionOfLabor_loop work n index leftover labor ! j =
            DivisionOfLabor_loop work n (index + 1) (leftover - 1) (labor[unat index := work + 1]) ! j"
        using lt True by (simp add: DivisionOfLabor_loop.simps [of _ _ index])
      also have "\<dots> = (if j < unat (index + 1) then labor[unat index := work + 1] ! j
              else if j - unat (index + 1) < unat (leftover - 1) then work + 1 else work)"
        using "1.IH"(1) [OF lt True] "1.prems" by simp
      also have "\<dots> = (if j < unat index then labor ! j
              else if j - unat index < unat leftover then work + 1 else work)"
        using "1.prems" pos by (auto simp: succ pred nth_list_update)
      finally show ?thesis .
    next
      case False
      then have z: "unat leftover = 0" by (simp add: word_less_nat_alt unat_eq_zero word_neq_0_conv)
      have "DivisionOfLabor_loop work n index leftover labor ! j =
            DivisionOfLabor_loop work n (index + 1) leftover (labor[unat index := work]) ! j"
        using lt False by (simp add: DivisionOfLabor_loop.simps [of _ _ index])
      also have "\<dots> = (if j < unat (index + 1) then labor[unat index := work] ! j
              else if j - unat (index + 1) < unat leftover then work + 1 else work)"
        using "1.IH"(2) [OF lt False] "1.prems" by simp
      also have "\<dots> = (if j < unat index then labor ! j
              else if j - unat index < unat leftover then work + 1 else work)"
        using "1.prems" z by (auto simp: succ nth_list_update)
      finally show ?thesis .
    qed
  qed
qed


lemma sum_list_if_less:
  "r \<le> n \<Longrightarrow> (\<Sum>j = 0..<n. if j < r then Suc q else q) = n * q + (r::nat)"
proof (induction n)
  case 0
  then show ?case by simp
next
  case (Suc n)
  show ?case
  proof (cases "r = Suc n")
    case True
    then show ?thesis by simp
  next
    case False
    with Suc.prems have "r \<le> n" by simp
    with Suc.IH show ?thesis by simp
  qed
qed

lemma DivisionOfLabor_entries:
  assumes "numberOfWorkers \<noteq> 0" and "j < unat numberOfWorkers"
  shows "unat (DivisionOfLabor_loop (sizeOfWork div numberOfWorkers) numberOfWorkers 0
                 (sizeOfWork mod numberOfWorkers) (replicate (unat numberOfWorkers) 0) ! j) =
         (if j < unat sizeOfWork mod unat numberOfWorkers
          then unat sizeOfWork div unat numberOfWorkers + 1
          else unat sizeOfWork div unat numberOfWorkers)"
proof -
  let ?q = "sizeOfWork div numberOfWorkers" and ?r = "sizeOfWork mod numberOfWorkers"
  have q: "unat ?q = unat sizeOfWork div unat numberOfWorkers" by (rule unat_div)
  have r: "unat ?r = unat sizeOfWork mod unat numberOfWorkers" by (rule unat_mod)
  have entry: "DivisionOfLabor_loop ?q numberOfWorkers 0 ?r (replicate (unat numberOfWorkers) 0) ! j =
         (if j < unat ?r then ?q + 1 else ?q)"
    using assms(2) by (simp add: DivisionOfLabor_loop_nth)
  show ?thesis
  proof (cases "j < unat ?r")
    case False
    with entry q r show ?thesis by simp
  next
    case True
    have npos: "0 < unat numberOfWorkers" using assms(1) by (simp add: unat_gt_0)
    have "unat ?q * unat numberOfWorkers + unat ?r = unat sizeOfWork"
      by (simp add: q r)
    moreover have "unat sizeOfWork < 2 ^ 32" using unsigned_less [of sizeOfWork] by simp
    moreover have "unat ?q \<le> unat ?q * unat numberOfWorkers" using npos by simp
    ultimately have "unat ?q + 1 < 2 ^ 32" using True by linarith
    then have "unat (?q + 1) = unat ?q + 1" by (simp add: unat_word_ariths)
    with entry True q r show ?thesis by simp
  qed
qed

text \<open>
  Claim C5. For every work size \<open>W\<close> and every worker count \<open>N \<ge> 1\<close>,
  \<^verbatim>\<open>DivisionOfLabor\<close> returns exactly \<open>N\<close> sizes that sum to \<open>W\<close>; the
  first \<open>W mod N\<close> of them are \<open>W div N + 1\<close> and the others are \<open>W div N\<close>, so
  any two sizes differ by at most 1 and the larger sizes come first.
\<close>

theorem DivisionOfLabor_sound:
  assumes "numberOfWorkers \<noteq> 0"
  shows "\<exists>labor. DivisionOfLabor sizeOfWork numberOfWorkers = Some labor \<and>
           length labor = unat numberOfWorkers \<and>
           sum_list (map unat labor) = unat sizeOfWork \<and>
           (\<forall>i < unat numberOfWorkers.
              unat (labor ! i) =
                (if i < unat sizeOfWork mod unat numberOfWorkers
                 then unat sizeOfWork div unat numberOfWorkers + 1
                 else unat sizeOfWork div unat numberOfWorkers)) \<and>
           (\<forall>i < unat numberOfWorkers. \<forall>j < unat numberOfWorkers.
              unat (labor ! i) \<le> unat (labor ! j) + 1) \<and>
           (\<forall>i j. i \<le> j \<and> j < unat numberOfWorkers \<longrightarrow> labor ! j \<le> labor ! i)"
proof -
  define labor where "labor = DivisionOfLabor_loop (sizeOfWork div numberOfWorkers)
     numberOfWorkers 0 (sizeOfWork mod numberOfWorkers) (replicate (unat numberOfWorkers) 0)"
  let ?n = "unat numberOfWorkers"
  let ?q = "unat sizeOfWork div ?n" and ?r = "unat sizeOfWork mod ?n"
  have res: "DivisionOfLabor sizeOfWork numberOfWorkers = Some labor"
    using assms by (simp add: DivisionOfLabor_def labor_def)
  have len: "length labor = ?n"
    by (simp add: labor_def DivisionOfLabor_loop_length)
  have entries: "unat (labor ! i) = (if i < ?r then ?q + 1 else ?q)" if "i < ?n" for i
    unfolding labor_def using assms that by (rule DivisionOfLabor_entries)
  have npos: "0 < ?n" using assms by (simp add: unat_gt_0)
  have "sum_list (map unat labor) = (\<Sum>j = 0..<?n. unat (labor ! j))"
    by (simp add: sum_list_sum_nth len)
  also have "\<dots> = (\<Sum>j = 0..<?n. if j < ?r then Suc ?q else ?q)"
    by (rule sum.cong) (simp_all add: entries)
  also have "\<dots> = ?n * ?q + ?r"
    using npos by (intro sum_list_if_less) simp
  also have "\<dots> = unat sizeOfWork" by simp
  finally have total: "sum_list (map unat labor) = unat sizeOfWork" .
  have close: "unat (labor ! i) \<le> unat (labor ! j) + 1" if "i < ?n" "j < ?n" for i j
    using that by (simp add: entries)
  have order: "labor ! j \<le> labor ! i" if "i \<le> j" "j < ?n" for i j
    using that by (simp add: word_le_nat_alt entries)
  show ?thesis
  proof (intro exI conjI allI impI)
    show "DivisionOfLabor sizeOfWork numberOfWorkers = Some labor" by (rule res)
    show "length labor = ?n" by (rule len)
    show "sum_list (map unat labor) = unat sizeOfWork" by (rule total)
    show "unat (labor ! i) = (if i < ?r then ?q + 1 else ?q)" if "i < ?n" for i
      using that by (rule entries)
    show "unat (labor ! i) \<le> unat (labor ! j) + 1" if "i < ?n" "j < ?n" for i j
      using that by (rule close)
    show "labor ! j \<le> labor ! i" if "i \<le> j \<and> j < ?n" for i j
      using that order by blast
  qed
qed



theorem DivisionOfLabor_sound_witness:
  "(3::u32) \<noteq> 0 \<and> DivisionOfLabor 10 3 = Some [4, 3, 3]"
proof -
  have ne: "(3::u32) \<noteq> 0"
    by simp
  have "DivisionOfLabor 10 3 = Some [4, 3, 3]"
    by code_simp
  with ne DivisionOfLabor_sound [OF ne, of 10] show ?thesis
    by blast
qed

section \<open>Properties of the reference generator\<close>

text \<open>
  Claim C9. For every word sequence \<open>w\<close>, \<^verbatim>\<open>GlibcRand::setState(w)\<close> followed by
  \<^verbatim>\<open>GlibcRand::getState()\<close> yields exactly \<^verbatim>\<open>GLIBC_RAND_STATE_SIZE\<close> words: \<open>w\<close>
  padded on the right with zeros when it is shorter, and the first
  \<^verbatim>\<open>GLIBC_RAND_STATE_SIZE\<close> words of \<open>w\<close> otherwise.
\<close>

theorem GlibcRand_setState_getState:
  "length (GlibcRand_getState (GlibcRand_setState GLIBC_RAND_STATE_SIZE g w)) =
     unat GLIBC_RAND_STATE_SIZE \<and>
   (length w < unat GLIBC_RAND_STATE_SIZE \<longrightarrow>
      GlibcRand_getState (GlibcRand_setState GLIBC_RAND_STATE_SIZE g w) =
        w @ replicate (unat GLIBC_RAND_STATE_SIZE - length w) 0) \<and>
   (unat GLIBC_RAND_STATE_SIZE \<le> length w \<longrightarrow>
      GlibcRand_getState (GlibcRand_setState GLIBC_RAND_STATE_SIZE g w) =
        take (unat GLIBC_RAND_STATE_SIZE) w)"
  by (simp add: GlibcRand_getState_def GlibcRand_setState_def vector_resize_def)

theorem GlibcRand_setState_getState_witness:
  "length [7::u32] < unat (3::u32) \<and>
   GlibcRand_getState (GlibcRand_setState 3 GlibcRand_new [7]) = [7, 0, 0] \<and>
   unat (1::u32) \<le> length [7::u32, 8] \<and>
   GlibcRand_getState (GlibcRand_setState 1 GlibcRand_new [7, 8]) = [7]"
proof -
  have short: "length [7::u32] < unat (3::u32)" and long: "unat (1::u32) \<le> length [7::u32, 8]"
    by simp_all
  have pad: "[7] @ replicate (unat (3::u32) - length [7::u32]) 0 = [7, 0, 0::u32]"
    and cut: "take (unat (1::u32)) [7, 8] = [7::u32]"
    by code_simp+
  have "GlibcRand_getState (GlibcRand_setState 3 GlibcRand_new [7]) =
          [7] @ replicate (unat (3::u32) - length [7::u32]) 0"
    using GlibcRand_setState_getState [of 3 GlibcRand_new "[7]"] short by blast
  moreover have "GlibcRand_getState (GlibcRand_setState 1 GlibcRand_new [7, 8]) =
          take (unat (1::u32)) [7, 8]"
    using GlibcRand_setState_getState [of 1 GlibcRand_new "[7, 8]"] long by blast
  ultimately show ?thesis
    using short long unfolding pad cut by blast
qed

section \<open>Properties of the depth loop\<close>

lemma u32_succ_cases: "unat ((m::u32) + 1) = unat m + 1 \<or> unat (m + 1) = 0"
proof -
  have "unat m < 2 ^ 32" using unsigned_less [of m] by simp
  then have "unat m + 1 < 2 ^ 32 \<or> unat m + 1 = 2 ^ 32" by linarith
  moreover have "unat (m + 1) = (unat m + 1) mod 2 ^ 32"
    by (simp add: unat_word_ariths)
  ultimately show ?thesis by auto
qed

lemma BruteForce_depth_loop_total:
  "unat matchesFound < length observedOutputs \<Longrightarrow>
   \<exists>m g'. BruteForce_depth_loop P observedOutputs depth g index matchesFound = Some (m, g') \<and>
          unat m \<le> length observedOutputs"
proof (induction P observedOutputs depth g index matchesFound rule: BruteForce_depth_loop.induct)
  case (1 P observedOutputs depth g index matchesFound)
  note unfold = BruteForce_depth_loop.simps [of P observedOutputs depth g index matchesFound]
  show ?case
  proof (cases "index < depth")
    case False
    with "1.prems" show ?thesis by (simp add: unfold)
  next
    case lt: True
    show ?thesis
    proof (cases "observedOutputs ! unat matchesFound = fst (random_next P g)")
      case False
      with lt "1.prems" "1.IH"(2) show ?thesis by (simp add: unfold)
    next
      case hit: True
      show ?thesis
      proof (cases "unat (matchesFound + 1) = length observedOutputs")
        case True
        with lt hit "1.prems" show ?thesis by (simp add: unfold)
      next
        case False
        with u32_succ_cases [of matchesFound] "1.prems"
        have "unat (matchesFound + 1) < length observedOutputs"
          by auto
        with lt hit False "1.prems" "1.IH"(1) show ?thesis by (simp add: unfold)
      qed
    qed
  qed
qed


lemma BruteForce_depth_loop_bound:
  "BruteForce_depth_loop P observedOutputs depth g index matchesFound = Some (m, g') \<Longrightarrow>
   unat matchesFound \<le> length observedOutputs \<Longrightarrow> unat m \<le> length observedOutputs"
proof (induction P observedOutputs depth g index matchesFound rule: BruteForce_depth_loop.induct)
  case (1 P observedOutputs depth g index matchesFound)
  note unfold = BruteForce_depth_loop.simps [of P observedOutputs depth g index matchesFound]
  show ?case
  proof (cases "index < depth \<and> unat matchesFound < length observedOutputs")
    case False
    with "1.prems" show ?thesis by (auto simp: unfold split: if_splits)
  next
    case True
    then obtain m0 g0 where "BruteForce_depth_loop P observedOutputs depth g index matchesFound = Some (m0, g0)"
      and "unat m0 \<le> length observedOutputs"
      using BruteForce_depth_loop_total [of matchesFound observedOutputs P depth g index] by blast
    with "1.prems" show ?thesis by simp
  qed
qed

lemma BruteForce_depth_loop_subseq:
  "subseq (drop (unat matchesFound) observedOutputs)
      (GenerateSample_outputs P g (unat depth - unat index)) \<Longrightarrow>
   unat matchesFound < length observedOutputs \<Longrightarrow>
   unat matchesFound \<le> unat index \<Longrightarrow>
   \<exists>m g'. BruteForce_depth_loop P observedOutputs depth g index matchesFound = Some (m, g') \<and>
          unat m = length observedOutputs"
proof (induction P observedOutputs depth g index matchesFound rule: BruteForce_depth_loop.induct)
  case (1 P observedOutputs depth g index matchesFound)
  note unfold = BruteForce_depth_loop.simps [of P observedOutputs depth g index matchesFound]
  let ?r = "fst (random_next P g)" and ?g = "snd (random_next P g)"
  show ?case
  proof (cases "index < depth")
    case False
    then have "unat depth - unat index = 0" by (simp add: word_less_nat_alt)
    with "1.prems" show ?thesis by simp
  next
    case lt: True
    then have i: "unat index < unat depth" by (simp add: word_less_nat_alt)
    have "unat depth < 2 ^ 32" using unsigned_less [of depth] by simp
    with i have succ_i: "unat (index + 1) = unat index + 1"
      by (simp add: unat_word_ariths)
    from i "1.prems"(3) \<open>unat depth < 2 ^ 32\<close> have succ_m: "unat (matchesFound + 1) = unat matchesFound + 1"
      by (simp add: unat_word_ariths)
    from i succ_i have outs: "GenerateSample_outputs P g (unat depth - unat index) =
        ?r # GenerateSample_outputs P ?g (unat depth - unat (index + 1))"
      by (simp add: Suc_diff_Suc [symmetric] del: GenerateSample_outputs.simps
               add: GenerateSample_outputs.simps(2) [symmetric])
    from "1.prems"(2) have obs: "drop (unat matchesFound) observedOutputs =
        observedOutputs ! unat matchesFound # drop (Suc (unat matchesFound)) observedOutputs"
      by (simp add: Cons_nth_drop_Suc)
    show ?thesis
    proof (cases "observedOutputs ! unat matchesFound = ?r")
      case False
      with "1.prems"(1) have "subseq (drop (unat matchesFound) observedOutputs)
          (GenerateSample_outputs P ?g (unat depth - unat (index + 1)))"
        unfolding outs obs by simp
      with "1.IH"(2) [OF lt "1.prems"(2) False] "1.prems"(2,3) succ_i lt False
      show ?thesis by (simp add: unfold)
    next
      case hit: True
      with "1.prems"(1) have rest: "subseq (drop (unat (matchesFound + 1)) observedOutputs)
          (GenerateSample_outputs P ?g (unat depth - unat (index + 1)))"
        unfolding outs obs succ_m by simp
      show ?thesis
      proof (cases "unat (matchesFound + 1) = length observedOutputs")
        case True
        with lt hit "1.prems"(2) show ?thesis by (simp add: unfold)
      next
        case False
        with succ_m "1.prems"(2) have "unat (matchesFound + 1) < length observedOutputs"
          by simp
        moreover have "unat (matchesFound + 1) \<le> unat (index + 1)"
          using succ_m succ_i "1.prems"(3) by simp
        ultimately show ?thesis
          using "1.IH"(1) [OF lt "1.prems"(2) hit False] rest lt hit False "1.prems"(2)
          by (simp add: unfold)
      qed
    qed
  qed
qed

text \<open>
  Claim C10. For every non-empty observation sequence, every read of
  \<^verbatim>\<open>observedOutputs[matchesFound]\<close> in the depth loop of \<^verbatim>\<open>BruteForce\<close> is in bounds:
  started with \<^verbatim>\<open>matchesFound = 0\<close>, as it is for each seed, the loop never reaches the
  out-of-bounds outcome, whatever the generator, its state and the depth; and no step
  takes a worker to \<open>OutOfBounds\<close>.
\<close>

theorem BruteForce_reads_in_bounds:
  assumes "observedOutputs \<noteq> []"
  shows "BruteForce_depth_loop P observedOutputs depth g 0 0 \<noteq> None \<and>
    (bf_pc w \<noteq> OutOfBounds \<longrightarrow>
       bf_pc (fst (BruteForce_step P observedOutputs minimumConfidence depth flag w)) \<noteq>
         OutOfBounds)"
proof -
  have total: "BruteForce_depth_loop P observedOutputs depth g' 0 0 \<noteq> None" for g'
    using assms BruteForce_depth_loop_total [of 0 observedOutputs P depth g' 0] by auto
  have "bf_pc (fst (BruteForce_step P observedOutputs minimumConfidence depth flag w)) \<noteq>
         OutOfBounds" if "bf_pc w \<noteq> OutOfBounds"
  proof (cases "bf_pc w")
    case LoopTest
    with total [of "seed P (bf_generator w) (bf_seedIndex w)"] show ?thesis
      by (auto simp: BruteForce_step_def)
  qed (use that in \<open>simp_all add: BruteForce_step_def\<close>)
  with total show ?thesis by blast
qed

theorem BruteForce_reads_in_bounds_witness:
  "[3::u32] \<noteq> [] \<and> BruteForce_depth_loop Counter [3] 5 0 0 0 = Some (1, 3) \<and>
   bf_pc (BruteForce_start Counter (0, 1)) \<noteq> OutOfBounds \<and>
   bf_pc (fst (BruteForce_step Counter [3] 100 5 False (BruteForce_start Counter (0, 1)))) =
     FlagCheck"
proof -
  have run: "BruteForce_depth_loop Counter [3] 5 0 0 0 = Some (1, 3)"
    by code_simp
  have at: "bf_pc (BruteForce_start Counter (0, 1)) \<noteq> OutOfBounds"
    by (simp add: BruteForce_start_def)
  have step: "bf_pc (fst (BruteForce_step Counter [3] 100 5 False
      (BruteForce_start Counter (0, 1)))) = FlagCheck"
    by (simp add: BruteForce_step_def BruteForce_start_def Counter_def
        BruteForce_depth_loop.simps)
  from BruteForce_reads_in_bounds [of "[3]" Counter 5 0 "BruteForce_start Counter (0, 1)"
      100 False] run at step
  show ?thesis by simp
qed

section \<open>Properties of the seed search\<close>

subsection \<open>Steps of the threads\<close>

lemma run_append:
  "run P obs mc depth tw (xs @ ys) c = run P obs mc depth tw ys (run P obs mc depth tw xs c)"
  by (simp add: run_def)

lemma run_Cons:
  "run P obs mc depth tw (t # ts) c = run P obs mc depth tw ts (step P obs mc depth tw t c)"
  by (simp add: run_def)

lemma run_Nil: "run P obs mc depth tw [] c = c"
  by (simp add: run_def)

lemma step_length_workers:
  "length (workers (step P obs mc depth tw t c)) = length (workers c)"
  by (cases t) (simp_all add: step_def Let_def)

lemma step_other_worker:
  "t \<noteq> Worker i \<Longrightarrow> workers (step P obs mc depth tw t c) ! i = workers c ! i"
  by (cases t) (simp_all add: step_def Let_def)

lemma step_this_worker:
  "i < length (workers c) \<Longrightarrow>
   workers (step P obs mc depth tw (Worker i) c) ! i =
     fst (BruteForce_step P obs mc depth (isCompleted c) (workers c ! i))"
  by (simp add: step_def Let_def)

lemma run_length_workers:
  "length (workers (run P obs mc depth tw ts c)) = length (workers c)"
  by (induction ts arbitrary: c) (simp_all add: run_Nil run_Cons step_length_workers)

lemma run_other_workers:
  "Worker i \<notin> set ts \<Longrightarrow> workers (run P obs mc depth tw ts c) ! i = workers c ! i"
  by (induction ts arbitrary: c) (auto simp: run_Nil run_Cons step_other_worker)

lemma confidence_full:
  assumes "unat m = length obs" and "obs \<noteq> []"
  shows "confidence m obs = 100"
proof -
  from assms(2) have "(1::real) \<le> real (length obs)"
    by (cases obs) simp_all
  then have "double_round 1 \<le> double_round (real (length obs))"
    by (rule double_round_mono)
  then have "double_round (real (length obs)) \<noteq> 0"
    by (simp add: double_round_1)
  with assms(1) show ?thesis
    by (simp add: confidence_def double_round_1 double_round_100)
qed

lemma confidence_none: "confidence 0 obs = 0"
  by (simp add: confidence_def double_round_0)

lemma confidence_one_of_one: "confidence 1 [a] = 100"
  by (simp add: confidence_full)

lemma confidence_one_of_two: "confidence 1 [a, b] = 50"
  by (simp add: confidence_def double_defs)

lemmas search_defs = run_def step_def SpawnThreads_def SpawnThreads_intervals_def
  DivisionOfLabor_def DivisionOfLabor_loop.simps BruteForce_start_def BruteForce_step_def
  StatusThread_step_def store_flag_def percent_complete_def confidence_none
  confidence_one_of_one confidence_one_of_two confidence_reaches_def FindSeed_answers_def
  Counter_def BruteForce_depth_loop.simps

lemma GenerateSample_outputs_take:
  "k \<le> n \<Longrightarrow> GenerateSample_outputs P g k = take k (GenerateSample_outputs P g n)"
proof (induction k arbitrary: g n)
  case 0
  then show ?case by simp
next
  case (Suc k)
  then obtain n' where "n = Suc n'" by (cases n) auto
  with Suc show ?case by simp
qed

lemma GenerateSample_prefix_subseq:
  "unat k \<le> unat depth \<Longrightarrow> subseq (GenerateSample P s k) (GenerateSample P s depth)"
  unfolding GenerateSample_def
  using GenerateSample_outputs_take [of "unat k" "unat depth" P "seed P (getInstance P) s"]
  by (metis prefix_imp_subseq take_is_prefix)

subsection \<open>What a worker has recorded\<close>

lemma u32_less_succ: "(s::u32) < i + 1 \<Longrightarrow> s < i \<or> s = i"
proof -
  assume "s < i + 1"
  then have less: "unat s < unat (i + 1)"
    by (simp add: word_less_nat_alt)
  with u32_succ_cases [of i] have "unat (i + 1) = unat i + 1"
    by auto
  with less have "unat s < unat i \<or> unat s = unat i"
    by linarith
  then show ?thesis
    by (auto simp: word_less_nat_alt word_unat_eq_iff)
qed

lemma BruteForce_step_interval:
  "bf_startingSeed (fst (BruteForce_step P obs mc depth flag w)) = bf_startingSeed w \<and>
   bf_endingSeed (fst (BruteForce_step P obs mc depth flag w)) = bf_endingSeed w"
  by (cases "bf_pc w") (auto simp: BruteForce_step_def split: option.splits)

lemma step_interval:
  "i < length (workers c) \<Longrightarrow>
   bf_startingSeed (workers (step P obs mc depth tw t c) ! i) = bf_startingSeed (workers c ! i) \<and>
   bf_endingSeed (workers (step P obs mc depth tw t c) ! i) = bf_endingSeed (workers c ! i)"
proof (cases "t = Worker i")
  case True
  assume "i < length (workers c)"
  with True show ?thesis
    by (simp add: step_this_worker BruteForce_step_interval)
next
  case False
  then show ?thesis
    by (simp add: step_other_worker)
qed

lemma run_interval:
  "i < length (workers c) \<Longrightarrow>
   bf_startingSeed (workers (run P obs mc depth tw ts c) ! i) = bf_startingSeed (workers c ! i) \<and>
   bf_endingSeed (workers (run P obs mc depth tw ts c) ! i) = bf_endingSeed (workers c ! i)"
  by (induction ts arbitrary: c)
     (simp_all add: run_Nil run_Cons step_interval step_length_workers)

lemma BruteForce_step_recorded:
  assumes inv: "worker_recorded P obs depth w"
    and contract: "seed_determines_outputs P"
    and nonempty: "obs \<noteq> []"
    and minimum: "mc \<le> 100"
  shows "worker_recorded P obs depth (fst (BruteForce_step P obs mc depth flag w))"
proof (cases "bf_pc w")
  case LoopTest
  show ?thesis
  proof (cases "bf_seedIndex w \<le> bf_endingSeed w")
    case False
    with LoopTest inv show ?thesis
      by (simp add: BruteForce_step_def worker_recorded_def)
  next
    case True
    let ?g = "seed P (bf_generator w) (bf_seedIndex w)"
    show ?thesis
    proof (cases "BruteForce_depth_loop P obs depth ?g 0 0")
      case None
      with LoopTest True inv show ?thesis
        by (simp add: BruteForce_step_def worker_recorded_def)
    next
      case (Some r)
      obtain m g where r: "r = (m, g)" by (cases r)
      have full: "unat m = length obs"
        if "subseq obs (GenerateSample P (bf_seedIndex w) depth)"
      proof -
        have "GenerateSample_outputs P ?g (unat depth) = GenerateSample P (bf_seedIndex w) depth"
          using contract unfolding seed_determines_outputs_def GenerateSample_def by blast
        with that have "subseq obs (GenerateSample_outputs P ?g (unat depth))"
          by simp
        with nonempty obtain m' g' where
          "BruteForce_depth_loop P obs depth ?g 0 0 = Some (m', g')" and "unat m' = length obs"
          using BruteForce_depth_loop_subseq [of 0 obs P ?g depth 0] by auto
        with Some r show ?thesis by simp
      qed
      from LoopTest True Some r
      have "fst (BruteForce_step P obs mc depth flag w) =
              w\<lparr>bf_pc := FlagCheck, bf_generator := g, bf_matchesFound := m\<rparr>"
        by (simp add: BruteForce_step_def)
      with inv full show ?thesis
        by (simp add: worker_recorded_def)
    qed
  qed
next
  case FlagCheck
  with inv show ?thesis
    by (simp add: BruteForce_step_def worker_recorded_def)
next
  case Record
  show ?thesis
  proof (cases "subseq obs (GenerateSample P (bf_seedIndex w) depth)")
    case True
    with inv Record have "unat (bf_matchesFound w) = length obs"
      by (simp add: worker_recorded_def)
    with nonempty have "confidence (bf_matchesFound w) obs = 100"
      by (simp add: confidence_full)
    with Record nonempty minimum inv show ?thesis
      by (simp add: BruteForce_step_def worker_recorded_def confidence_reaches_def)
  next
    case False
    with Record inv show ?thesis
      by (simp add: BruteForce_step_def worker_recorded_def)
  qed
next
  case Signal
  have "(s, 100) \<in> set (bf_answers w)"
    if "bf_startingSeed w \<le> s" and "s < bf_seedIndex w + 1"
      and "subseq obs (GenerateSample P s depth)" for s
  proof -
    from that(2) consider "s < bf_seedIndex w" | "s = bf_seedIndex w"
      using u32_less_succ by blast
    then show ?thesis
    proof cases
      case 1
      with inv that show ?thesis by (simp add: worker_recorded_def)
    next
      case 2
      with inv that Signal show ?thesis by (simp add: worker_recorded_def)
    qed
  qed
  with Signal show ?thesis
    by (simp add: BruteForce_step_def worker_recorded_def)
next
  case Finished
  with inv show ?thesis
    by (simp add: BruteForce_step_def)
next
  case OutOfBounds
  with inv show ?thesis
    by (simp add: BruteForce_step_def)
qed

lemma step_recorded:
  assumes "list_all (worker_recorded P obs depth) (workers c)"
    and "seed_determines_outputs P" and "obs \<noteq> []" and "mc \<le> 100"
  shows "list_all (worker_recorded P obs depth) (workers (step P obs mc depth tw t c))"
proof (cases t)
  case Reporter
  with assms(1) show ?thesis by (simp add: step_def Let_def)
next
  case (Worker i)
  show ?thesis
  proof (cases "i < length (workers c)")
    case False
    with Worker assms(1) show ?thesis by (simp add: step_def)
  next
    case True
    with assms(1) have "worker_recorded P obs depth (workers c ! i)"
      by (simp add: list_all_length)
    then have "worker_recorded P obs depth
        (fst (BruteForce_step P obs mc depth (isCompleted c) (workers c ! i)))"
      using assms(2-4) by (rule BruteForce_step_recorded)
    with assms(1) True Worker show ?thesis
      by (auto simp: step_def Let_def list_all_length nth_list_update)
  qed
qed

lemma run_recorded:
  "list_all (worker_recorded P obs depth) (workers c) \<Longrightarrow>
   seed_determines_outputs P \<Longrightarrow> obs \<noteq> [] \<Longrightarrow> mc \<le> 100 \<Longrightarrow>
   list_all (worker_recorded P obs depth) (workers (run P obs mc depth tw ts c))"
  by (induction ts arbitrary: c) (simp_all add: run_Nil run_Cons step_recorded)

lemma SpawnThreads_recorded:
  "SpawnThreads P threads lowerBoundSeed upperBoundSeed = Some c \<Longrightarrow>
   list_all (worker_recorded P obs depth) (workers c)"
  by (auto simp: SpawnThreads_def BruteForce_start_def worker_recorded_def list_all_iff
           split: option.splits)

lemma SpawnThreads_at_top:
  "SpawnThreads P threads lowerBoundSeed upperBoundSeed = Some c \<Longrightarrow>
   i < length (workers c) \<Longrightarrow> bf_pc (workers c ! i) = LoopTest"
  by (auto simp: SpawnThreads_def BruteForce_start_def split: option.splits)

lemma BruteForce_step_Finished:
  assumes "bf_pc (fst (BruteForce_step P obs mc depth flag w)) = Finished"
    and "bf_seedIndex (fst (BruteForce_step P obs mc depth flag w)) \<le>
         bf_endingSeed (fst (BruteForce_step P obs mc depth flag w))"
  shows "fst (BruteForce_step P obs mc depth flag w) = w \<and> bf_pc w = Finished \<or>
         bf_pc w = FlagCheck \<and> flag"
  using assms
  by (cases "bf_pc w") (auto simp: BruteForce_step_def split: option.splits if_splits)

lemma run_snoc:
  "run P obs mc depth tw (ts @ [t]) c = step P obs mc depth tw t (run P obs mc depth tw ts c)"
  by (simp add: run_append run_Cons run_Nil)

lemma finished_early_flag:
  assumes start: "SpawnThreads P threads lowerBoundSeed upperBoundSeed = Some c"
    and i: "i < length (workers c)"
  shows "bf_pc (workers (run P obs mc depth tw ts c) ! i) = Finished \<Longrightarrow>
         bf_seedIndex (workers (run P obs mc depth tw ts c) ! i) \<le>
           bf_endingSeed (workers (run P obs mc depth tw ts c) ! i) \<Longrightarrow>
         \<exists>k\<le>length ts. isCompleted (run P obs mc depth tw (take k ts) c)"
proof (induction ts rule: rev_induct)
  case Nil
  with SpawnThreads_at_top [OF start i] show ?case
    by (simp add: run_Nil)
next
  case (snoc t ts)
  let ?c = "run P obs mc depth tw ts c"
  have len: "i < length (workers ?c)"
    using i by (simp add: run_length_workers)
  have earlier: "\<exists>k\<le>length (ts @ [t]). isCompleted (run P obs mc depth tw (take k (ts @ [t])) c)"
    if "\<exists>k\<le>length ts. isCompleted (run P obs mc depth tw (take k ts) c)"
  proof -
    from that obtain k where "k \<le> length ts" and "isCompleted (run P obs mc depth tw (take k ts) c)"
      by blast
    then have "k \<le> length (ts @ [t]) \<and> isCompleted (run P obs mc depth tw (take k (ts @ [t])) c)"
      by simp
    then show ?thesis by blast
  qed
  show ?case
  proof (cases "t = Worker i")
    case False
    then have "workers (run P obs mc depth tw (ts @ [t]) c) ! i = workers ?c ! i"
      by (simp add: run_snoc step_other_worker)
    with snoc show ?thesis
      using earlier by simp
  next
    case True
    then have now: "workers (run P obs mc depth tw (ts @ [t]) c) ! i =
        fst (BruteForce_step P obs mc depth (isCompleted ?c) (workers ?c ! i))"
      using len by (simp add: run_snoc step_this_worker)
    from snoc.prems [unfolded now]
    consider "fst (BruteForce_step P obs mc depth (isCompleted ?c) (workers ?c ! i)) = workers ?c ! i"
        "bf_pc (workers ?c ! i) = Finished"
      | "isCompleted ?c"
      using BruteForce_step_Finished by blast
    then show ?thesis
    proof cases
      case 1
      with snoc.prems now have "bf_pc (workers ?c ! i) = Finished"
        and "bf_seedIndex (workers ?c ! i) \<le> bf_endingSeed (workers ?c ! i)"
        by simp_all
      then show ?thesis
        using snoc.IH earlier by blast
    next
      case 2
      then have "length ts \<le> length (ts @ [t]) \<and>
          isCompleted (run P obs mc depth tw (take (length ts) (ts @ [t])) c)"
        by simp
      then show ?thesis by blast
    qed
  qed
qed


lemma reads_unset_snoc:
  "reads_unset P obs mc depth tw i (ts @ [t]) c \<longleftrightarrow>
     reads_unset P obs mc depth tw i ts c \<and>
     (t = Worker i \<and> bf_pc (workers (run P obs mc depth tw ts c) ! i) = FlagCheck \<longrightarrow>
        \<not> isCompleted (run P obs mc depth tw ts c))"
  by (induction ts arbitrary: c) (simp_all add: run_Nil run_Cons)

lemma reads_unset_append:
  "reads_unset P obs mc depth tw i (xs @ ys) c \<Longrightarrow> reads_unset P obs mc depth tw i xs c"
  by (induction xs arbitrary: c) simp_all

lemma count_list_take_exists:
  "n \<le> count_list xs x \<Longrightarrow> \<exists>k\<le>length xs. count_list (take k xs) x = n"
proof (induction xs rule: rev_induct)
  case Nil
  then show ?case by simp
next
  case (snoc y xs)
  show ?case
  proof (cases "n \<le> count_list xs x")
    case True
    with snoc.IH obtain k where "k \<le> length xs" and "count_list (take k xs) x = n"
      by blast
    then have "k \<le> length (xs @ [y]) \<and> count_list (take k (xs @ [y])) x = n"
      by simp
    then show ?thesis by blast
  next
    case False
    with snoc.prems have "count_list (xs @ [y]) x = n"
      by (simp split: if_splits)
    then have "length (xs @ [y]) \<le> length (xs @ [y]) \<and>
        count_list (take (length (xs @ [y])) (xs @ [y])) x = n"
      by simp
    then show ?thesis by blast
  qed
qed

lemma BruteForce_step_answers_grow:
  "set (bf_answers w) \<subseteq> set (bf_answers (fst (BruteForce_step P obs mc depth flag w)))"
  by (cases "bf_pc w") (auto simp: BruteForce_step_def split: option.splits)

lemma step_answers_grow:
  "i < length (workers c) \<Longrightarrow>
   set (bf_answers (workers c ! i)) \<subseteq> set (bf_answers (workers (step P obs mc depth tw t c) ! i))"
proof (cases "t = Worker i")
  case True
  assume "i < length (workers c)"
  with True show ?thesis
    by (simp add: step_this_worker BruteForce_step_answers_grow)
next
  case False
  then show ?thesis
    by (simp add: step_other_worker)
qed

lemma run_answers_grow:
  "i < length (workers c) \<Longrightarrow>
   set (bf_answers (workers c ! i)) \<subseteq> set (bf_answers (workers (run P obs mc depth tw ts c) ! i))"
proof (induction ts arbitrary: c)
  case Nil
  then show ?case by (simp add: run_Nil)
next
  case (Cons t ts)
  from Cons.prems have "i < length (workers (step P obs mc depth tw t c))"
    by (simp add: step_length_workers)
  from Cons.IH [OF this] step_answers_grow [OF Cons.prems, of P obs mc depth tw t]
  show ?case
    by (auto simp: run_Cons)
qed

lemma SpawnThreads_at_start:
  "SpawnThreads P threads lowerBoundSeed upperBoundSeed = Some c \<Longrightarrow>
   i < length (workers c) \<Longrightarrow> bf_seedIndex (workers c ! i) = bf_startingSeed (workers c ! i)"
  by (auto simp: SpawnThreads_def BruteForce_start_def split: option.splits)

lemma BruteForce_step_LoopTest_position:
  assumes "bf_pc w = LoopTest" and "bf_seedIndex w \<le> bf_endingSeed w" and "obs \<noteq> []"
  shows "bf_pc (fst (BruteForce_step P obs mc depth flag w)) = FlagCheck \<and>
         bf_seedIndex (fst (BruteForce_step P obs mc depth flag w)) = bf_seedIndex w"
proof -
  from assms(3) obtain m g where
    "BruteForce_depth_loop P obs depth (seed P (bf_generator w) (bf_seedIndex w)) 0 0 = Some (m, g)"
    using BruteForce_depth_loop_total
      [of 0 obs P depth "seed P (bf_generator w) (bf_seedIndex w)" 0]
    by auto
  with assms(1,2) show ?thesis
    by (simp add: BruteForce_step_def)
qed

lemma BruteForce_step_position:
  "bf_pc w = FlagCheck \<Longrightarrow> \<not> flag \<Longrightarrow>
     bf_pc (fst (BruteForce_step P obs mc depth flag w)) = Record \<and>
     bf_seedIndex (fst (BruteForce_step P obs mc depth flag w)) = bf_seedIndex w"
  "bf_pc w = Record \<Longrightarrow>
     bf_pc (fst (BruteForce_step P obs mc depth flag w)) = Signal \<and>
     bf_seedIndex (fst (BruteForce_step P obs mc depth flag w)) = bf_seedIndex w"
  "bf_pc w = Signal \<Longrightarrow>
     bf_pc (fst (BruteForce_step P obs mc depth flag w)) = LoopTest \<and>
     bf_seedIndex (fst (BruteForce_step P obs mc depth flag w)) = bf_seedIndex w + 1"
  by (simp_all add: BruteForce_step_def)

lemma u32_plus_of_nat:
  "unat (a::u32) + q \<le> unat (b::u32) \<Longrightarrow> unat (a + of_nat q) = unat a + q"
proof -
  assume le: "unat a + q \<le> unat b"
  have "unat b < 2 ^ 32"
    using unsigned_less [of b] by simp
  with le have "unat a + q < 2 ^ 32" and "q < 2 ^ 32"
    by linarith+
  then show ?thesis
    by (simp add: unat_word_ariths unat_of_nat)
qed

lemma fourth_step: "(4 * (d::nat) + 3) div 4 = d \<and> (4 * d + 3) mod 4 = 3"
  by presburger

lemma BruteForce_position:
  assumes start: "SpawnThreads P threads lowerBoundSeed upperBoundSeed = Some c"
    and i: "i < length (workers c)"
    and nonempty: "obs \<noteq> []"
  shows "reads_unset P obs mc depth tw i ts c \<Longrightarrow>
         unat (bf_startingSeed (workers c ! i)) + count_list ts (Worker i) div 4 \<le>
           unat (bf_endingSeed (workers c ! i)) \<Longrightarrow>
         bf_seedIndex (workers (run P obs mc depth tw ts c) ! i) =
           bf_startingSeed (workers c ! i) + of_nat (count_list ts (Worker i) div 4) \<and>
         bf_pc (workers (run P obs mc depth tw ts c) ! i) =
           [LoopTest, FlagCheck, Record, Signal] ! (count_list ts (Worker i) mod 4)"
proof (induction ts rule: rev_induct)
  case Nil
  with SpawnThreads_at_top [OF start i] SpawnThreads_at_start [OF start i] show ?case
    by (simp add: run_Nil)
next
  case (snoc t ts)
  let ?c = "run P obs mc depth tw ts c"
  let ?w = "workers ?c ! i"
  let ?n = "count_list ts (Worker i)"
  let ?a = "bf_startingSeed (workers c ! i)"
  let ?b = "bf_endingSeed (workers c ! i)"
  have len: "i < length (workers ?c)"
    using i by (simp add: run_length_workers)
  from snoc.prems(1) have unset: "reads_unset P obs mc depth tw i ts c"
    and check: "t = Worker i \<Longrightarrow> bf_pc ?w = FlagCheck \<Longrightarrow> \<not> isCompleted ?c"
    by (simp_all add: reads_unset_snoc)
  show ?case
  proof (cases "t = Worker i")
    case False
    then have "workers (run P obs mc depth tw (ts @ [t]) c) ! i = ?w"
      and "count_list (ts @ [t]) (Worker i) = ?n"
      by (simp_all add: run_snoc step_other_worker)
    with snoc.IH [OF unset] snoc.prems(2) show ?thesis
      by simp
  next
    case True
    then have count: "count_list (ts @ [t]) (Worker i) = ?n + 1"
      by simp
    from True have now: "workers (run P obs mc depth tw (ts @ [t]) c) ! i =
        fst (BruteForce_step P obs mc depth (isCompleted ?c) ?w)"
      using len by (simp add: run_snoc step_this_worker)
    from snoc.prems(2) have within: "unat ?a + ?n div 4 \<le> unat ?b" and
      within': "unat ?a + (?n + 1) div 4 \<le> unat ?b"
      unfolding count by linarith+
    from snoc.IH [OF unset within]
    have idx: "bf_seedIndex ?w = ?a + of_nat (?n div 4)"
      and pc: "bf_pc ?w = [LoopTest, FlagCheck, Record, Signal] ! (?n mod 4)"
      by simp_all
    have "?n mod 4 < 4" by simp
    then consider "?n mod 4 = 0" | "?n mod 4 = 1" | "?n mod 4 = 2" | "?n mod 4 = 3"
      by linarith
    then show ?thesis
    proof cases
      case 1
      then have next_n: "(?n + 1) div 4 = ?n div 4" "(?n + 1) mod 4 = 1"
        by presburger+
      from 1 pc have at: "bf_pc ?w = LoopTest" by simp
      have "unat (bf_seedIndex ?w) = unat ?a + ?n div 4"
        unfolding idx using within by (rule u32_plus_of_nat)
      with within have "bf_seedIndex ?w \<le> bf_endingSeed ?w"
        using run_interval [OF i, of P obs mc depth tw ts] by (simp add: word_le_nat_alt)
      with at nonempty show ?thesis
        unfolding now count next_n
        by (simp add: BruteForce_step_LoopTest_position idx)
    next
      case 2
      then have next_n: "(?n + 1) div 4 = ?n div 4" "(?n + 1) mod 4 = 2"
        by presburger+
      from 2 pc have at: "bf_pc ?w = FlagCheck" by simp
      with check True have "\<not> isCompleted ?c" by simp
      with at show ?thesis
        unfolding now count next_n
        by (simp add: BruteForce_step_position idx)
    next
      case 3
      then have next_n: "(?n + 1) div 4 = ?n div 4" "(?n + 1) mod 4 = 3"
        by presburger+
      from 3 pc have at: "bf_pc ?w = Record" by simp
      then show ?thesis
        unfolding now count next_n
        by (simp add: BruteForce_step_position idx)
    next
      case 4
      then have next_n: "(?n + 1) div 4 = ?n div 4 + 1" "(?n + 1) mod 4 = 0"
        by presburger+
      from 4 pc have at: "bf_pc ?w = Signal" by simp
      then show ?thesis
        unfolding now count next_n
        by (simp add: BruteForce_step_position idx)
    qed
  qed
qed

text \<open>
  Claim C1, as amended. A search is started by \<^verbatim>\<open>SpawnThreads\<close> and runs under any
  schedule. Let \<open>s\<close> be a seed of the interval of worker \<open>i\<close>, let the non-empty
  observations be an in-order subsequence of the first \<^verbatim>\<open>depth\<close> outputs of a fresh
  generator seeded with \<open>s\<close> (the first \<open>K \<le> depth\<close> outputs are one, by
  \<open>GenerateSample_prefix_subseq\<close>), and let the minimum confidence be at most 100. The
  generator honours the contract of seeding and keeps its state in its object. Then:
  \<^item> at every moment, once the worker has moved past \<open>s\<close>, or is about to, \<open>(s, 100)\<close>
    is in its answer list;
  \<^item> if the worker has read \<^verbatim>\<open>isCompleted\<close> as false at each check it made, then by its
    step number \<open>4 (s - startingSeed) + 3\<close>, the recording step of its round for \<open>s\<close>
    (a round takes four steps), it has appended \<open>(s, 100)\<close>, and the pair stays in the
    list whatever happens later;
  \<^item> a worker that has left its loop without recording \<open>s\<close> has done so after
    \<^verbatim>\<open>isCompleted\<close> was set.
\<close>

theorem BruteForce_records_full_match:
  assumes contract: "seed_determines_outputs P"
    and start: "SpawnThreads P threads lowerBoundSeed upperBoundSeed = Some c"
    and i: "i < length (workers c)"
    and in_interval: "bf_startingSeed (workers c ! i) \<le> s" "s \<le> bf_endingSeed (workers c ! i)"
    and nonempty: "observedOutputs \<noteq> []"
    and replayed: "subseq observedOutputs (GenerateSample P s depth)"
    and minimum: "minimumConfidence \<le> 100"
  shows "let w = workers (run P observedOutputs minimumConfidence depth totalWork schedule c) ! i
         in (s < bf_seedIndex w \<or> s = bf_seedIndex w \<and> bf_pc w = Signal \<longrightarrow>
               (s, 100) \<in> set (bf_answers w)) \<and>
            (reads_unset P observedOutputs minimumConfidence depth totalWork i schedule c \<and>
             4 * (unat s - unat (bf_startingSeed (workers c ! i))) + 3 \<le>
               count_list schedule (Worker i) \<longrightarrow>
               (s, 100) \<in> set (bf_answers (workers
                  (run P observedOutputs minimumConfidence depth totalWork (schedule @ later) c) !
                  i))) \<and>
            (bf_pc w = Finished \<longrightarrow>
               (s, 100) \<in> set (bf_answers w) \<or>
               (\<exists>k\<le>length schedule. isCompleted
                  (run P observedOutputs minimumConfidence depth totalWork (take k schedule) c)))"
proof -
  let ?run = "run P observedOutputs minimumConfidence depth totalWork"
  define w where "w = workers (?run schedule c) ! i"
  have recorded: "worker_recorded P observedOutputs depth (workers (?run ts c) ! i)" for ts
  proof -
    have "list_all (worker_recorded P observedOutputs depth) (workers (?run ts c))"
      using SpawnThreads_recorded [OF start] contract nonempty minimum
      by (rule run_recorded)
    moreover have "i < length (workers (?run ts c))"
      using i by (simp add: run_length_workers)
    ultimately show ?thesis
      by (simp add: list_all_length)
  qed
  have interval: "bf_startingSeed (workers (?run ts c) ! i) = bf_startingSeed (workers c ! i)"
      "bf_endingSeed (workers (?run ts c) ! i) = bf_endingSeed (workers c ! i)" for ts
    using run_interval [OF i] by simp_all
  have passed: "(s, 100) \<in> set (bf_answers w)"
    if "s < bf_seedIndex w \<or> s = bf_seedIndex w \<and> bf_pc w = Signal"
    using that recorded [of schedule] in_interval(1) interval(1) [of schedule] replayed
    unfolding w_def by (auto simp: worker_recorded_def)
  have progress: "(s, 100) \<in> set (bf_answers (workers (?run (schedule @ later) c) ! i))"
    if unset: "reads_unset P observedOutputs minimumConfidence depth totalWork i schedule c"
      and steps: "4 * (unat s - unat (bf_startingSeed (workers c ! i))) + 3 \<le>
          count_list schedule (Worker i)"
  proof -
    let ?d = "unat s - unat (bf_startingSeed (workers c ! i))"
    from steps obtain k where k: "k \<le> length schedule"
      and count: "count_list (take k schedule) (Worker i) = 4 * ?d + 3"
      using count_list_take_exists [of "4 * ?d + 3" schedule "Worker i"] by blast
    have unset_k: "reads_unset P observedOutputs minimumConfidence depth totalWork i
        (take k schedule) c"
      using unset reads_unset_append [of P observedOutputs minimumConfidence depth totalWork i
          "take k schedule" "drop k schedule" c]
      by simp
    have d: "unat (bf_startingSeed (workers c ! i)) + ?d = unat s"
      using in_interval(1) by (simp add: word_le_nat_alt)
    have quot: "(4 * ?d + 3) div 4 = ?d" "(4 * ?d + 3) mod 4 = 3"
      using fourth_step [of ?d] by simp_all
    have within: "unat (bf_startingSeed (workers c ! i)) +
        count_list (take k schedule) (Worker i) div 4 \<le> unat (bf_endingSeed (workers c ! i))"
      unfolding count quot d using in_interval(2) by (simp add: word_le_nat_alt)
    let ?w = "workers (?run (take k schedule) c) ! i"
    from BruteForce_position [OF start i nonempty unset_k within]
    have idx: "bf_seedIndex ?w = bf_startingSeed (workers c ! i) + of_nat ?d"
      and pc: "bf_pc ?w = Signal"
      unfolding count quot by simp_all
    have "unat (bf_startingSeed (workers c ! i) + of_nat ?d) = unat s"
      using u32_plus_of_nat [of "bf_startingSeed (workers c ! i)" ?d s] d by simp
    with idx have "bf_seedIndex ?w = s"
      by (simp add: word_unat_eq_iff)
    with pc recorded [of "take k schedule"] replayed have "(s, 100) \<in> set (bf_answers ?w)"
      by (simp add: worker_recorded_def)
    moreover have "set (bf_answers ?w) \<subseteq>
        set (bf_answers (workers (?run (drop k schedule @ later) (?run (take k schedule) c)) ! i))"
      using i by (intro run_answers_grow) (simp add: run_length_workers)
    moreover have "?run (drop k schedule @ later) (?run (take k schedule) c) =
        ?run (schedule @ later) c"
    proof -
      have "take k schedule @ drop k schedule @ later = schedule @ later"
        by (simp only: append_assoc [symmetric] append_take_drop_id)
      then show ?thesis
        by (simp only: run_append [symmetric])
    qed
    ultimately show ?thesis
      by auto
  qed
  have finished: "(s, 100) \<in> set (bf_answers w) \<or>
      (\<exists>k\<le>length schedule. isCompleted (?run (take k schedule) c))"
    if fin: "bf_pc w = Finished"
  proof (cases "bf_seedIndex w \<le> bf_endingSeed w")
    case True
    with fin show ?thesis
      using finished_early_flag [OF start i, where obs = observedOutputs
          and mc = minimumConfidence and depth = depth and tw = totalWork and ts = schedule]
      by (simp add: w_def)
  next
    case False
    with in_interval(2) interval(2) [of schedule] have "s < bf_seedIndex w"
      unfolding w_def by simp
    then show ?thesis
      using passed by simp
  qed
  from passed progress finished show ?thesis
    unfolding Let_def w_def by blast
qed

theorem BruteForce_records_full_match_witness:
  "seed_determines_outputs Counter \<and>
   GenerateSample Counter 4 5 = [5, 6, 7, 8, 9] \<and>
   subseq [6, 9] (GenerateSample Counter 4 5) \<and>
   (case SpawnThreads Counter 2 2 4 of
      None \<Rightarrow> False
    | Some c \<Rightarrow>
        bf_startingSeed (workers c ! 1) = 3 \<and> bf_endingSeed (workers c ! 1) = 4 \<and>
        reads_unset Counter [6, 9] 100 5 2 1
          [Worker 1, Worker 0, Worker 1, Reporter, Worker 1, Worker 1, Worker 0, Worker 1,
           Worker 1, Worker 1] c \<and>
        count_list [Worker 1, Worker 0, Worker 1, Reporter, Worker 1, Worker 1, Worker 0,
           Worker 1, Worker 1, Worker 1] (Worker 1) = 4 * (unat (4::u32) - unat (3::u32)) + 3 \<and>
        (let w = workers (run Counter [6, 9] 100 5 2
             [Worker 1, Worker 0, Worker 1, Reporter, Worker 1, Worker 1, Worker 0, Worker 1,
              Worker 1, Worker 1] c) ! 1
         in bf_pc w = Signal \<and> bf_seedIndex w = 4 \<and> bf_answers w = [(4, 100)] \<and>
            (4, 100) \<in> set (bf_answers w)) \<and>
        (let w = workers (run Counter [6, 9] 100 5 2
             ([Worker 1, Worker 0, Worker 1, Reporter, Worker 1, Worker 1, Worker 0, Worker 1,
               Worker 1, Worker 1] @ [Worker 1, Reporter, Worker 1]) c) ! 1
         in bf_pc w = Finished \<and> (4, 100) \<in> set (bf_answers w)))"
proof -
  let ?c = "\<lparr>isCompleted = False,
      workers = [\<lparr>bf_pc = LoopTest, bf_generator = 0, bf_startingSeed = 2, bf_endingSeed = 3,
                  bf_seedIndex = 2, bf_matchesFound = 0, bf_answers = [], bf_status = 0\<rparr>,
                 \<lparr>bf_pc = LoopTest, bf_generator = 0, bf_startingSeed = 3, bf_endingSeed = 4,
                  bf_seedIndex = 3, bf_matchesFound = 0, bf_answers = [], bf_status = 0\<rparr>],
      reporter = \<lparr>st_pc = WhileTest, st_index = 0, st_sum = 0\<rparr>\<rparr>"
  let ?ts = "[Worker 1, Worker 0, Worker 1, Reporter, Worker 1, Worker 1, Worker 0, Worker 1,
      Worker 1, Worker 1]"
  let ?later = "[Worker 1, Reporter, Worker 1]"
  have intervals: "SpawnThreads_intervals 2 2 4 = Some [(2, 3), (3, 4)]"
    by code_simp
  have start: "SpawnThreads Counter 2 2 4 = Some ?c"
    by (simp add: SpawnThreads_def intervals BruteForce_start_def Counter_def)
  have contract: "seed_determines_outputs Counter"
    by (simp add: seed_determines_outputs_def Counter_def)
  have sample: "GenerateSample Counter 4 5 = [5, 6, 7, 8, 9]"
    by code_simp
  then have replayed: "subseq [6, 9] (GenerateSample Counter 4 5)"
    by simp
  have two: "confidence 2 [a, b] = 100" for a b :: u32
    by (simp add: confidence_full)
  note trace = run_def step_def BruteForce_step_def StatusThread_step_def store_flag_def
    percent_complete_def confidence_none confidence_one_of_two two confidence_reaches_def
    Counter_def BruteForce_depth_loop.simps
  have unset: "reads_unset Counter [6, 9] 100 5 2 1 ?ts ?c"
    by (simp add: trace)
  have steps: "count_list ?ts (Worker 1) = 4 * (unat (4::u32) - unat (3::u32)) + 3"
    by simp
  have at: "workers (run Counter [6, 9] 100 5 2 ?ts ?c) ! 1 =
      \<lparr>bf_pc = Signal, bf_generator = 9, bf_startingSeed = 3, bf_endingSeed = 4,
       bf_seedIndex = 4, bf_matchesFound = 2, bf_answers = [(4, 100)], bf_status = 1\<rparr>"
    by (simp add: trace)
  have fin: "bf_pc (workers (run Counter [6, 9] 100 5 2 (?ts @ ?later) ?c) ! 1) = Finished"
    by (simp add: trace)
  from BruteForce_records_full_match [OF contract start, where i = 1 and s = 4
      and observedOutputs = "[6, 9]" and depth = 5 and minimumConfidence = 100
      and totalWork = 2 and schedule = ?ts and later = ?later] replayed unset steps
  have "(4, 100) \<in> set (bf_answers (workers (run Counter [6, 9] 100 5 2 ?ts ?c) ! 1)) \<and>
        (4, 100) \<in> set (bf_answers (workers (run Counter [6, 9] 100 5 2 (?ts @ ?later) ?c) ! 1))"
    unfolding at Let_def by simp
  with contract sample replayed unset steps at fin show ?thesis
    unfolding start Let_def by simp
qed

text \<open>
  The claim as stated, without the condition on the flag, fails. One worker owns the
  seeds 0 and 1, the observation is the first output of seed 1, which seed 0 produces
  as well within the depth. The worker records seed 0, sets \<^verbatim>\<open>isCompleted\<close>, replays
  seed 1, reads the flag and leaves the loop: seed 1 is never recorded.
\<close>

theorem BruteForce_skips_later_match:
  "GenerateSample Counter 1 1 = [2] \<and>
   subseq [2] (GenerateSample Counter 1 5) \<and>
   SpawnThreads_intervals 1 0 1 = Some [(0, 1)] \<and>
   (case SpawnThreads Counter 1 0 1 of
      None \<Rightarrow> False
    | Some c \<Rightarrow>
        map bf_pc (workers (run Counter [2] 100 5 1
           [Worker 0, Worker 0, Worker 0, Worker 0, Worker 0, Worker 0] c)) = [Finished] \<and>
        FindSeed_answers (run Counter [2] 100 5 1
           [Worker 0, Worker 0, Worker 0, Worker 0, Worker 0, Worker 0] c) = [(0, 100)])"
proof -
  have "GenerateSample Counter 1 1 = [2]" and "GenerateSample Counter 1 5 = [2, 3, 4, 5, 6]"
    by code_simp+
  moreover have "SpawnThreads_intervals 1 0 1 = Some [(0, 1)]"
    by (simp add: search_defs)
  moreover have "(case SpawnThreads Counter 1 0 1 of
      None \<Rightarrow> False
    | Some c \<Rightarrow>
        map bf_pc (workers (run Counter [2] 100 5 1
           [Worker 0, Worker 0, Worker 0, Worker 0, Worker 0, Worker 0] c)) = [Finished] \<and>
        FindSeed_answers (run Counter [2] 100 5 1
           [Worker 0, Worker 0, Worker 0, Worker 0, Worker 0, Worker 0] c) = [(0, 100)])"
    by (simp add: search_defs)
  ultimately show ?thesis by simp
qed

text \<open>
  Nor does the worker record a seed that replays every observation when the minimum
  confidence is above 100, a value that \<^verbatim>\<open>main\<close> rejects for the option \<^verbatim>\<open>-c\<close>.
\<close>

lemma BruteForce_minimum_above_100:
  "subseq [1] (GenerateSample Counter 0 1) \<and>
   (case SpawnThreads Counter 1 0 0 of
      None \<Rightarrow> False
    | Some c \<Rightarrow>
        map bf_pc (workers (run Counter [1] 101 1 0
           [Worker 0, Worker 0, Worker 0, Worker 0, Worker 0] c)) = [Finished] \<and>
        FindSeed_answers (run Counter [1] 101 1 0
           [Worker 0, Worker 0, Worker 0, Worker 0, Worker 0] c) = [])"
proof -
  have "GenerateSample Counter 0 1 = [1]"
    by code_simp
  moreover have "(case SpawnThreads Counter 1 0 0 of
      None \<Rightarrow> False
    | Some c \<Rightarrow>
        map bf_pc (workers (run Counter [1] 101 1 0
           [Worker 0, Worker 0, Worker 0, Worker 0, Worker 0] c)) = [Finished] \<and>
        FindSeed_answers (run Counter [1] 101 1 0
           [Worker 0, Worker 0, Worker 0, Worker 0, Worker 0] c) = [])"
    by (simp add: search_defs)
  ultimately show ?thesis by simp
qed

subsection \<open>The range of the confidence\<close>

lemma confidence_le_100:
  assumes "unat m \<le> length obs"
  shows "confidence m obs \<le> 100"
proof -
  define a where "a = double_round (real (unat m))"
  define b where "b = double_round (real (length obs))"
  from assms have "real (unat m) \<le> real (length obs)"
    by (simp only: of_nat_le_iff)
  then have "a \<le> b"
    unfolding a_def b_def by (rule double_round_mono)
  moreover have "0 \<le> a"
    unfolding a_def by (rule double_round_nonneg) (simp only: of_nat_0_le_iff)
  ultimately have "a / b \<le> 1"
    by (cases "b = 0") (simp_all add: divide_le_eq_1_pos)
  then have "double_round (a / b) \<le> double_round 1"
    by (rule double_round_mono)
  then have "double_round (a / b) * 100 \<le> 1 * 100"
    unfolding double_round_1 by (intro mult_right_mono) simp_all
  then have "double_round (double_round (a / b) * 100) \<le> double_round 100"
    by (intro double_round_mono) simp
  then show ?thesis
    by (simp only: confidence_def a_def b_def double_round_100)
qed

lemma BruteForce_step_ok:
  assumes "worker_ok obs w" and "0 < mc"
  shows "worker_ok obs (fst (BruteForce_step P obs mc depth flag w))"
proof (cases "bf_pc w")
  case LoopTest
  show ?thesis
  proof (cases "BruteForce_depth_loop P obs depth (seed P (bf_generator w) (bf_seedIndex w)) 0 0")
    case None
    with LoopTest assms(1) show ?thesis
      by (simp add: BruteForce_step_def worker_ok_def)
  next
    case (Some r)
    then obtain m g where r: "r = (m, g)" by (cases r)
    with Some have "unat m \<le> length obs"
      using BruteForce_depth_loop_bound [of P obs depth _ 0 0 m g] by simp
    with LoopTest Some r assms(1) show ?thesis
      by (simp add: BruteForce_step_def worker_ok_def)
  qed
next
  case Record
  from assms(1) have "confidence (bf_matchesFound w) obs \<le> 100"
    by (simp add: worker_ok_def confidence_le_100)
  with Record assms show ?thesis
    by (auto simp: BruteForce_step_def worker_ok_def confidence_reaches_def)
qed (use assms(1) in \<open>simp_all add: BruteForce_step_def worker_ok_def\<close>)

lemma step_ok:
  assumes "list_all (worker_ok obs) (workers c)" and "0 < mc"
  shows "list_all (worker_ok obs) (workers (step P obs mc depth tw t c))"
proof (cases t)
  case Reporter
  with assms(1) show ?thesis by (simp add: step_def Let_def)
next
  case (Worker i)
  show ?thesis
  proof (cases "i < length (workers c)")
    case False
    with Worker assms(1) show ?thesis by (simp add: step_def)
  next
    case True
    with assms(1) have "worker_ok obs (workers c ! i)"
      by (simp add: list_all_length)
    then have "worker_ok obs (fst (BruteForce_step P obs mc depth (isCompleted c) (workers c ! i)))"
      using assms(2) by (rule BruteForce_step_ok)
    with assms(1) True Worker show ?thesis
      by (auto simp: step_def Let_def list_all_length nth_list_update)
  qed
qed

lemma run_ok:
  "list_all (worker_ok obs) (workers c) \<Longrightarrow> 0 < mc \<Longrightarrow>
   list_all (worker_ok obs) (workers (run P obs mc depth tw ts c))"
  by (induction ts arbitrary: c) (simp_all add: run_Nil run_Cons step_ok)

lemma SpawnThreads_ok:
  "SpawnThreads P threads lowerBoundSeed upperBoundSeed = Some c \<Longrightarrow>
   list_all (worker_ok obs) (workers c)"
  by (auto simp: SpawnThreads_def BruteForce_start_def worker_ok_def list_all_iff
           split: option.splits)

text \<open>
  The rounding is visible in the confidence: 11 matches out of 20 give the double next
  above 55, and 23 out of 40 give the double next below 57.5, which a minimum confidence
  of 57.5 does not let through.
\<close>

lemma confidence_11_of_20:
  "confidence 11 (replicate 20 x) = 7740561859543041 / 140737488355328"
  by (simp add: confidence_def double_defs)

lemma confidence_23_of_40:
  "confidence 23 (replicate 40 x) = 8092405580431359 / 140737488355328 \<and>
   \<not> confidence_reaches (115 / 2) 23 (replicate 40 x)"
  by (simp add: confidence_reaches_def confidence_def double_defs)

text \<open>
  Claim C8, as amended. When the minimum confidence given to the workers is positive, as
  \<^verbatim>\<open>main\<close> requires of the option \<^verbatim>\<open>-c\<close>, every answer a worker has appended, at every
  moment of every interleaving of a search started by \<^verbatim>\<open>SpawnThreads\<close>, has a confidence
  above 0 and at most 100; and no step of a worker whose \<^verbatim>\<open>matchesFound\<close> is 0 appends
  an answer. The confidence is the double that the code computes: the quotient is at
  most 1 before and after its rounding, the product at most 100 before and after its
  rounding, and a recorded confidence is at least the positive minimum.
\<close>

theorem BruteForce_confidence_range:
  assumes "0 < minimumConfidence"
    and "SpawnThreads P threads lowerBoundSeed upperBoundSeed = Some c"
  shows "list_all (\<lambda>a. 0 < snd a \<and> snd a \<le> 100)
           (FindSeed_answers
              (run P observedOutputs minimumConfidence depth totalWork schedule c)) \<and>
         (bf_matchesFound w = 0 \<longrightarrow>
            bf_answers (fst (BruteForce_step P observedOutputs minimumConfidence depth flag w)) =
              bf_answers w)"
proof -
  have "list_all (worker_ok observedOutputs)
          (workers (run P observedOutputs minimumConfidence depth totalWork schedule c))"
    using assms by (intro run_ok SpawnThreads_ok)
  then have "list_all (\<lambda>a. 0 < snd a \<and> snd a \<le> 100)
      (FindSeed_answers (run P observedOutputs minimumConfidence depth totalWork schedule c))"
    by (auto simp: FindSeed_answers_def worker_ok_def list_all_iff)
  moreover have "bf_answers (fst (BruteForce_step P observedOutputs minimumConfidence depth
      flag w)) = bf_answers w" if "bf_matchesFound w = 0"
    using that assms(1)
    by (cases "bf_pc w")
       (auto simp: BruteForce_step_def confidence_reaches_def confidence_none
             split: option.splits)
  ultimately show ?thesis
    by blast
qed

theorem BruteForce_confidence_range_witness:
  "(0::real) < 55 \<and>
   (case SpawnThreads Counter 1 0 0 of
      None \<Rightarrow> False
    | Some c \<Rightarrow>
        FindSeed_answers (run Counter
           [1, 2, 3, 4, 5, 6, 7, 8, 9, 10, 11, 0, 0, 0, 0, 0, 0, 0, 0, 0] 55 11 0
           [Worker 0, Worker 0, Worker 0] c) =
          [(0, 7740561859543041 / 140737488355328)] \<and>
        list_all (\<lambda>a. 0 < snd a \<and> snd a \<le> 100)
          (FindSeed_answers (run Counter
             [1, 2, 3, 4, 5, 6, 7, 8, 9, 10, 11, 0, 0, 0, 0, 0, 0, 0, 0, 0] 55 11 0
             [Worker 0, Worker 0, Worker 0] c)) \<and>
        bf_pc (workers (run Counter [9] 55 1 0 [Worker 0, Worker 0] c) ! 0) = Record \<and>
        bf_matchesFound (workers (run Counter [9] 55 1 0 [Worker 0, Worker 0] c) ! 0) = 0 \<and>
        bf_answers (fst (BruteForce_step Counter [9] 55 1 False
           (workers (run Counter [9] 55 1 0 [Worker 0, Worker 0] c) ! 0))) = [])"
proof -
  let ?c = "\<lparr>isCompleted = False,
     workers = [\<lparr>bf_pc = LoopTest, bf_generator = 0, bf_startingSeed = 0, bf_endingSeed = 0,
                 bf_seedIndex = 0, bf_matchesFound = 0, bf_answers = [], bf_status = 0\<rparr>],
     reporter = \<lparr>st_pc = WhileTest, st_index = 0, st_sum = 0\<rparr>\<rparr>"
  let ?obs = "[1, 2, 3, 4, 5, 6, 7, 8, 9, 10, 11, 0, 0, 0, 0, 0, 0, 0, 0, 0] :: u32 list"
  let ?ts = "[Worker 0, Worker 0, Worker 0]"
  let ?w = "\<lparr>bf_pc = Record, bf_generator = 1, bf_startingSeed = 0, bf_endingSeed = 0,
     bf_seedIndex = 0, bf_matchesFound = 0, bf_answers = [], bf_status = 0\<rparr> :: u32 worker"
  have start: "SpawnThreads Counter 1 0 0 = Some ?c"
    by (simp add: search_defs)
  have pos: "(0::real) < 55"
    by simp
  have rounded: "confidence 11 ?obs = 7740561859543041 / 140737488355328"
    by (simp add: confidence_def double_defs)
  have answers: "FindSeed_answers (run Counter ?obs 55 11 0 ?ts ?c) =
      [(0, 7740561859543041 / 140737488355328)]"
    by (simp add: search_defs rounded)
  have none: "workers (run Counter [9] 55 1 0 [Worker 0, Worker 0] ?c) ! 0 = ?w"
    by (simp add: search_defs)
  from BruteForce_confidence_range [OF pos start, where observedOutputs = ?obs and depth = 11
      and totalWork = 0 and schedule = ?ts and w = ?w and flag = False]
    BruteForce_confidence_range [OF pos start, where observedOutputs = "[9]" and depth = 1
      and w = ?w and flag = False]
  have "list_all (\<lambda>a. 0 < snd a \<and> snd a \<le> 100)
          (FindSeed_answers (run Counter ?obs 55 11 0 ?ts ?c)) \<and>
        bf_answers (fst (BruteForce_step Counter [9] 55 1 False ?w)) = []"
    by simp
  with pos answers none show ?thesis
    unfolding start by simp
qed

text \<open>
  The claim as stated, for every minimum confidence, fails: \<^verbatim>\<open>BruteForce\<close> compares with
  \<^verbatim>\<open><=\<close> and has no guard of its own, so with the minimum 0 a seed that matches no
  observation is recorded with confidence 0.
\<close>

theorem BruteForce_records_zero_confidence:
  "(case SpawnThreads Counter 1 0 0 of
      None \<Rightarrow> False
    | Some c \<Rightarrow>
        FindSeed_answers (run Counter [9] 0 1 0 [Worker 0, Worker 0, Worker 0] c) = [(0, 0)])"
  by (simp add: search_defs)

subsection \<open>The completion flag\<close>

lemma BruteForce_step_never_clears:
  "snd (BruteForce_step P obs mc depth flag w) \<noteq> Some False"
  by (cases "bf_pc w") (auto simp: BruteForce_step_def split: option.splits)

text \<open>
  Claim C3 says that \<^verbatim>\<open>isCompleted\<close> is never cleared once it is set. The code does not
  keep it: \<^verbatim>\<open>StatusThread\<close> tests the flag at the top of its loop and stores
  \<^verbatim>\<open>(100.0 <= percent)\<close> later in the round. In the run below the reporter passes its
  test and sums a progress of 0 out of 10; the worker then finds that seed 0 replays the
  observation and stores \<^verbatim>\<open>true\<close>; the reporter's pending store writes \<^verbatim>\<open>false\<close>.
  The workers themselves never store \<^verbatim>\<open>false\<close> (\<open>BruteForce_step_never_clears\<close>).
\<close>

theorem StatusThread_clears_completion_flag:
  "(case SpawnThreads Counter 1 0 10 of
      None \<Rightarrow> False
    | Some c \<Rightarrow>
        isCompleted (run Counter [1] 100 1 10
          [Reporter, Reporter, Reporter, Worker 0, Worker 0, Worker 0, Worker 0] c) \<and>
        st_pc (reporter (run Counter [1] 100 1 10
          [Reporter, Reporter, Reporter, Worker 0, Worker 0, Worker 0, Worker 0] c)) = Store \<and>
        \<not> isCompleted (run Counter [1] 100 1 10
          [Reporter, Reporter, Reporter, Worker 0, Worker 0, Worker 0, Worker 0, Reporter] c))"
  by (simp add: search_defs)

subsection \<open>The seed intervals\<close>

text \<open>
  Claim C4 says that the workers' seed intervals are pairwise disjoint. The code does not
  make them so: \<^verbatim>\<open>SpawnThreads\<close> passes \<^verbatim>\<open>endAt = startAt + labor.at(id)\<close> and starts the
  next worker at that same value, while the loop of \<^verbatim>\<open>BruteForce\<close> runs up to and
  including \<^verbatim>\<open>endingSeed\<close>. With two workers on the seeds 2 to 4, seed 3 ends one interval
  and starts the other; it matches half of the observations, and after both workers have
  finished it stands in both answer lists.
\<close>

theorem SpawnThreads_intervals_overlap:
  "SpawnThreads_intervals 2 2 4 = Some [(2, 3), (3, 4)] \<and>
   (case SpawnThreads Counter 2 2 4 of
      None \<Rightarrow> False
    | Some c \<Rightarrow>
        map bf_pc (workers (run Counter [4, 100] 50 2 2
          [Worker 0, Worker 0, Worker 0, Worker 0, Worker 0, Worker 0, Worker 0, Worker 0, Worker 0,
           Worker 1, Worker 1, Worker 1, Worker 1, Worker 1, Worker 1, Worker 1, Worker 1, Worker 1]
          c)) = [Finished, Finished] \<and>
        map bf_answers (workers (run Counter [4, 100] 50 2 2
          [Worker 0, Worker 0, Worker 0, Worker 0, Worker 0, Worker 0, Worker 0, Worker 0, Worker 0,
           Worker 1, Worker 1, Worker 1, Worker 1, Worker 1, Worker 1, Worker 1, Worker 1, Worker 1]
          c)) = [[(2, 50), (3, 50)], [(3, 50)]])"
proof -
  have intervals: "SpawnThreads_intervals 2 2 4 = Some [(2, 3), (3, 4)]"
    by code_simp
  have start: "SpawnThreads Counter 2 2 4 =
    Some \<lparr>isCompleted = False,
      workers = [\<lparr>bf_pc = LoopTest, bf_generator = 0, bf_startingSeed = 2, bf_endingSeed = 3,
                  bf_seedIndex = 2, bf_matchesFound = 0, bf_answers = [], bf_status = 0\<rparr>,
                 \<lparr>bf_pc = LoopTest, bf_generator = 0, bf_startingSeed = 3, bf_endingSeed = 4,
                  bf_seedIndex = 3, bf_matchesFound = 0, bf_answers = [], bf_status = 0\<rparr>],
      reporter = \<lparr>st_pc = WhileTest, st_index = 0, st_sum = 0\<rparr>\<rparr>"
    by (simp add: SpawnThreads_def intervals BruteForce_start_def Counter_def)
  show ?thesis
    unfolding start
    by (simp add: intervals run_def step_def BruteForce_step_def store_flag_def confidence_none
      confidence_one_of_two confidence_reaches_def Counter_def BruteForce_depth_loop.simps)
qed

section \<open>Properties of the state inference\<close>

subsection \<open>The window loop\<close>

lemma InferState_loop_done:
  assumes "unat i < length obs - unat k"
    and "InferState_round P obs k hs g i acc = Some (True, g', acc')"
  shows "InferState_loop P obs k hs g i acc = Some acc'"
  using assms by (subst InferState_loop.simps) simp

lemma InferState_loop_next:
  assumes "unat i < length obs - unat k"
    and "InferState_round P obs k hs g i acc = Some (False, g', acc')"
  shows "InferState_loop P obs k hs g i acc = InferState_loop P obs k hs g' (i + 1) acc'"
  using assms by (subst InferState_loop.simps) simp

lemma InferState_rounds_loop:
  "InferState_rounds P obs k hs j = Some (g, acc) \<Longrightarrow>
   InferState_loop P obs k hs (getInstance P) 0
     \<lparr>messages = [Info_Trying_state_inference], matched = False, scores = [],
               best_state = [], windows = []\<rparr> =
   InferState_loop P obs k hs g (of_nat j) acc"
proof (induction j arbitrary: g acc)
  case 0
  then show ?case by simp
next
  case (Suc j)
  from Suc.prems obtain g0 acc0 where
    before: "InferState_rounds P obs k hs j = Some (g0, acc0)"
    and test: "unat (of_nat j :: u32) < length obs - unat k"
    and round: "InferState_round P obs k hs g0 (of_nat j) acc0 = Some (False, g, acc)"
    by (auto simp: Option.bind_eq_Some_conv split: if_splits)
  have "InferState_loop P obs k hs g0 (of_nat j) acc0 =
        InferState_loop P obs k hs g (of_nat j + 1) acc"
    using test round by (rule InferState_loop_next)
  with Suc.IH [OF before] show ?case
    by (simp add: add.commute)
qed

lemma InferState_round_windows:
  "InferState_round P obs k hs g i acc = Some (b, g', acc') \<Longrightarrow>
   windows acc' = windows acc @ [i]"
  by (auto simp: InferState_round_def Option.bind_eq_Some_conv split: if_splits)

lemma InferState_loop_windows_step:
  assumes IH: "\<And>obs k hs g i acc r. loop P obs k hs g i acc = Some r \<Longrightarrow>
      prefix (windows acc) (windows r) \<and>
      (unat i < length obs - unat k \<longrightarrow> prefix (windows acc @ [i]) (windows r))"
    and unfolded: "(if unat i < length obs - unat k then
        Option.bind (InferState_round P obs k hs g i acc)
          (\<lambda>r. if fst r then Some (snd (snd r))
                else loop P obs k hs (fst (snd r)) (i + 1) (snd (snd r)))
      else Some (acc\<lparr>messages := messages acc @ InferState_analyze P hs g, matched := False\<rparr>)) = Some r"
  shows "prefix (windows acc) (windows r) \<and>
      (unat i < length obs - unat k \<longrightarrow> prefix (windows acc @ [i]) (windows r))"
proof (cases "unat i < length obs - unat k")
  case False
  with unfolded show ?thesis by auto
next
  case True
  with unfolded obtain b g' acc' where
    round: "InferState_round P obs k hs g i acc = Some (b, g', acc')"
    and rest: "if b then r = acc' else loop P obs k hs g' (i + 1) acc' = Some r"
    by (auto simp: Option.bind_eq_Some_conv split: if_splits)
  from round have w: "windows acc' = windows acc @ [i]"
    by (rule InferState_round_windows)
  have "prefix (windows acc') (windows r)"
  proof (cases b)
    case True
    with rest show ?thesis by simp
  next
    case False
    with rest have "loop P obs k hs g' (i + 1) acc' = Some r" by simp
    then show ?thesis using IH by blast
  qed
  with w True show ?thesis
    by (auto simp: prefix_def)
qed

lemma InferState_loop_windows:
  assumes "InferState_loop P obs k hs g i acc = Some r"
  shows "prefix (windows acc) (windows r) \<and>
   (unat i < length obs - unat k \<longrightarrow> prefix (windows acc @ [i]) (windows r))"
proof -
  have "(\<lambda>((((((P, obs), k), hs), g), i), acc) r.
          prefix (windows acc) (windows r) \<and>
          (unat i < length obs - unat k \<longrightarrow> prefix (windows acc @ [i]) (windows r)))
        ((((((P, obs), k), hs), g), i), acc) r"
  proof (rule InferState_loop.raw_induct [where Pa = "\<lambda>((((((P, obs), k), hs), g), i), acc) r.
          prefix (windows acc) (windows r) \<and>
          (unat i < length obs - unat k \<longrightarrow> prefix (windows acc @ [i]) (windows r))",
        OF _ assms], goal_cases)
    case (1 loop P obs k hs g i acc r)
    have "prefix (windows acc) (windows r) \<and>
      (unat i < length obs - unat k \<longrightarrow> prefix (windows acc @ [i]) (windows r))"
      using 1(2)
    proof (rule InferState_loop_windows_step [rotated])
      fix obs k hs g i acc r
      assume "loop P obs k hs g i acc = Some r"
      from 1(1) [OF this]
      show "prefix (windows acc) (windows r) \<and>
        (unat i < length obs - unat k \<longrightarrow> prefix (windows acc @ [i]) (windows r))"
        by simp
    qed
    then show ?case by simp
  qed
  then show ?thesis by simp
qed


lemma InferState_round_messages:
  "InferState_round P obs k hs g i acc = Some (False, g', acc') \<Longrightarrow>
   messages acc' = messages acc"
  by (auto simp: InferState_round_def Option.bind_eq_Some_conv split: if_splits)

lemma InferState_round_matched:
  "InferState_round P obs k hs g i acc = Some (True, g', acc') \<Longrightarrow> matched acc'"
  by (auto simp: InferState_round_def Option.bind_eq_Some_conv split: if_splits)

lemma InferState_loop_never_guesses_step:
  assumes IH: "\<And>obs k g i acc r. loop P obs k 0 g i acc = Some r \<Longrightarrow> \<not> matched r \<Longrightarrow>
      messages r = messages acc @ [Info_State_Inference_failed]"
    and unfolded: "(if unat i < length obs - unat k then
        Option.bind (InferState_round P obs k 0 g i acc)
          (\<lambda>r. if fst r then Some (snd (snd r))
                else loop P obs k 0 (fst (snd r)) (i + 1) (snd (snd r)))
      else Some (acc\<lparr>messages := messages acc @ InferState_analyze P 0 g,
                     matched := False\<rparr>)) = Some r"
    and unmatched: "\<not> matched r"
  shows "messages r = messages acc @ [Info_State_Inference_failed]"
proof (cases "unat i < length obs - unat k")
  case False
  with unfolded show ?thesis
    by (auto simp: InferState_analyze_def)
next
  case True
  with unfolded obtain b g' acc' where
    round: "InferState_round P obs k 0 g i acc = Some (b, g', acc')"
    and rest: "if b then r = acc' else loop P obs k 0 g' (i + 1) acc' = Some r"
    by (auto simp: Option.bind_eq_Some_conv split: if_splits)
  show ?thesis
  proof (cases b)
    case True
    with round rest unmatched show ?thesis
      using InferState_round_matched by fastforce
  next
    case False
    with rest have "loop P obs k 0 g' (i + 1) acc' = Some r" by simp
    then have "messages r = messages acc' @ [Info_State_Inference_failed]"
      using unmatched by (rule IH)
    moreover from round False have "messages acc' = messages acc"
      using InferState_round_messages by fastforce
    ultimately show ?thesis by simp
  qed
qed

lemma InferState_loop_never_guesses:
  assumes "InferState_loop P obs k 0 g i acc = Some r" and "\<not> matched r"
  shows "messages r = messages acc @ [Info_State_Inference_failed]"
proof -
  have "(\<lambda>((((((P, obs), k), hs), g), i), acc) r.
          hs = (0::real) \<longrightarrow> \<not> matched r \<longrightarrow>
          messages r = messages acc @ [Info_State_Inference_failed])
        ((((((P, obs), k), 0), g), i), acc) r"
  proof (rule InferState_loop.raw_induct [where Pa = "\<lambda>((((((P, obs), k), hs), g), i), acc) r.
          hs = (0::real) \<longrightarrow> \<not> matched r \<longrightarrow>
          messages r = messages acc @ [Info_State_Inference_failed]",
        OF _ assms(1)], goal_cases)
    case (1 loop P obs k hs g i acc r)
    have "messages r = messages acc @ [Info_State_Inference_failed]"
      if "hs = 0" and "\<not> matched r"
      using 1(2) [unfolded \<open>hs = 0\<close>] that(2)
    proof (rule InferState_loop_never_guesses_step [rotated])
      fix obs k g i acc r
      assume "loop P obs k 0 g i acc = Some r" and "\<not> matched r"
      with 1(1) show "messages r = messages acc @ [Info_State_Inference_failed]"
        by fastforce
    qed
    then show ?case by simp
  qed
  with assms(2) show ?thesis by simp
qed

lemma InferState_never_guesses:
  assumes "InferState P observedOutputs = Some r" and "\<not> matched r"
    and "unat (getStateSize P (getInstance P)) < length observedOutputs"
  shows "messages r = [Info_Trying_state_inference, Info_State_Inference_failed]"
  using assms InferState_loop_never_guesses
    [of P observedOutputs "getStateSize P (getInstance P)" "getInstance P" 0
      "\<lparr>messages = [Info_Trying_state_inference], matched = False, scores = [],
        best_state = [], windows = []\<rparr>" r]
  by (simp add: InferState_def)

lemmas inference_defs = InferState_def InferState_loop.simps InferState_round_def
  InferState_score_def InferState_window_def InferState_forward.simps
  InferState_backward.simps InferState_analyze_def InferState_perfect_def
  Counter_def Counter_irreversible_def

text \<open>
  Claim C7. With no more observations than the generator has state words,
  \<^verbatim>\<open>InferState\<close> prints the two warnings and returns false without entering the window
  loop, and \<^verbatim>\<open>main\<close> goes on to \<^verbatim>\<open>FindSeed\<close>. With more observations the loop test holds
  for \<open>i = 0\<close>: \<^verbatim>\<open>InferState\<close> is the first round followed by the rest of the loop, and
  whenever it returns, window 0 is the first window it has examined.
\<close>

theorem InferState_guard:
  "(length observedOutputs \<le> unat (getStateSize P (getInstance P)) \<longrightarrow>
      InferState P observedOutputs =
        Some \<lparr>messages = [Info_Trying_state_inference, Warn_Not_enough_observed_values,
                Warn_Try_again_with_more_than (getStateSize P (getInstance P))],
              matched = False, scores = [], best_state = [], windows = []\<rparr> \<and>
      (observedOutputs \<noteq> [] \<longrightarrow>
         main_recover P threads lowerBoundSeed upperBoundSeed depth 0 observedOutputs =
           Some (Inference_then_FindSeed
              \<lparr>messages = [Info_Trying_state_inference, Warn_Not_enough_observed_values,
                 Warn_Try_again_with_more_than (getStateSize P (getInstance P))],
               matched = False, scores = [], best_state = [], windows = []\<rparr>
              (SpawnThreads P threads lowerBoundSeed upperBoundSeed)))) \<and>
   (unat (getStateSize P (getInstance P)) < length observedOutputs \<longrightarrow>
      InferState P observedOutputs =
        Option.bind
          (InferState_round P observedOutputs (getStateSize P (getInstance P)) 0
             (getInstance P) 0
             \<lparr>messages = [Info_Trying_state_inference], matched = False, scores = [],
               best_state = [], windows = []\<rparr>)
          (\<lambda>r. if fst r then Some (snd (snd r))
                else InferState_loop P observedOutputs (getStateSize P (getInstance P)) 0
                       (fst (snd r)) 1 (snd (snd r))) \<and>
      (\<forall>r. InferState P observedOutputs = Some r \<longrightarrow> prefix [0] (windows r)))"
proof (intro conjI impI allI)
  assume few: "length observedOutputs \<le> unat (getStateSize P (getInstance P))"
  then show skipped: "InferState P observedOutputs =
        Some \<lparr>messages = [Info_Trying_state_inference, Warn_Not_enough_observed_values,
                Warn_Try_again_with_more_than (getStateSize P (getInstance P))],
              matched = False, scores = [], best_state = [], windows = []\<rparr>"
    by (simp add: InferState_def)
  assume "observedOutputs \<noteq> []"
  with skipped show "main_recover P threads lowerBoundSeed upperBoundSeed depth 0 observedOutputs =
           Some (Inference_then_FindSeed
              \<lparr>messages = [Info_Trying_state_inference, Warn_Not_enough_observed_values,
                 Warn_Try_again_with_more_than (getStateSize P (getInstance P))],
               matched = False, scores = [], best_state = [], windows = []\<rparr>
              (SpawnThreads P threads lowerBoundSeed upperBoundSeed))"
    by (simp add: main_recover_def)
next
  let ?k = "getStateSize P (getInstance P)"
  let ?init = "\<lparr>messages = [Info_Trying_state_inference], matched = False, scores = [],
               best_state = [], windows = []\<rparr>"
  assume enough: "unat ?k < length observedOutputs"
  then have loop: "InferState P observedOutputs =
      InferState_loop P observedOutputs ?k 0 (getInstance P) 0 ?init"
    by (simp add: InferState_def)
  from enough have test: "unat (0::u32) < length observedOutputs - unat ?k"
    by simp
  show "InferState P observedOutputs =
        Option.bind (InferState_round P observedOutputs ?k 0 (getInstance P) 0 ?init)
          (\<lambda>r. if fst r then Some (snd (snd r))
                else InferState_loop P observedOutputs ?k 0 (fst (snd r)) 1 (snd (snd r)))"
    unfolding loop using test by (subst InferState_loop.simps) (simp cong: if_cong)
  fix r
  assume "InferState P observedOutputs = Some r"
  with loop have "InferState_loop P observedOutputs ?k 0 (getInstance P) 0 ?init = Some r"
    by simp
  from InferState_loop_windows [OF this] test show "prefix [0] (windows r)"
    by simp
qed

theorem InferState_guard_witness:
  "length [5::u32] \<le> unat (getStateSize Counter (getInstance Counter)) \<and>
   [5::u32] \<noteq> [] \<and>
   InferState Counter [5] =
     Some \<lparr>messages = [Info_Trying_state_inference, Warn_Not_enough_observed_values, Warn_Try_again_with_more_than 1],
           matched = False, scores = [], best_state = [], windows = []\<rparr> \<and>
   main_recover Counter 1 0 10 1000 0 [5] =
     Some (Inference_then_FindSeed
        \<lparr>messages = [Info_Trying_state_inference, Warn_Not_enough_observed_values, Warn_Try_again_with_more_than 1],
         matched = False, scores = [], best_state = [], windows = []\<rparr>
        (SpawnThreads Counter 1 0 10)) \<and>
   unat (getStateSize Counter (getInstance Counter)) < length [5::u32, 6, 9] \<and>
   InferState Counter [5, 6, 9] =
     Some \<lparr>messages = [Info_Trying_state_inference, Info_State_Inference_failed],
           matched = False,
           scores = [50, 50], best_state = [6], windows = [0, 1]\<rparr> \<and>
   prefix [0] (windows \<lparr>messages = [Info_Trying_state_inference, Info_State_Inference_failed],
           matched = False,
           scores = [50, 50], best_state = [6], windows = [0, 1]\<rparr>)"
proof -
  have size: "getStateSize Counter (getInstance Counter) = 1"
    by (simp add: Counter_def)
  have few: "length [5::u32] \<le> unat (getStateSize Counter (getInstance Counter))"
    and enough: "unat (getStateSize Counter (getInstance Counter)) < length [5::u32, 6, 9]"
    by (simp_all add: size)
  have result: "InferState Counter [5, 6, 9] =
     Some \<lparr>messages = [Info_Trying_state_inference, Info_State_Inference_failed],
           matched = False,
           scores = [50, 50], best_state = [6], windows = [0, 1]\<rparr>"
    by (simp add: inference_defs)
  note guard = InferState_guard [where P = Counter and threads = 1 and lowerBoundSeed = 0
      and upperBoundSeed = 10 and depth = 1000]
  from guard [where observedOutputs = "[5]"] few size
  have "InferState Counter [5] =
     Some \<lparr>messages = [Info_Trying_state_inference, Warn_Not_enough_observed_values, Warn_Try_again_with_more_than 1],
           matched = False, scores = [], best_state = [], windows = []\<rparr>"
    and "main_recover Counter 1 0 10 1000 0 [5] =
     Some (Inference_then_FindSeed
        \<lparr>messages = [Info_Trying_state_inference, Warn_Not_enough_observed_values, Warn_Try_again_with_more_than 1],
         matched = False, scores = [], best_state = [], windows = []\<rparr>
        (SpawnThreads Counter 1 0 10))"
    by simp_all
  moreover from guard [where observedOutputs = "[5, 6, 9]"] enough result
  have "prefix [0] (windows \<lparr>messages = [Info_Trying_state_inference, Info_State_Inference_failed],
           matched = False,
           scores = [50, 50], best_state = [6], windows = [0, 1]\<rparr>)"
    by blast
  ultimately show ?thesis
    using few enough result by simp
qed


text \<open>
  Claim C6. Let the loop arrive at window \<open>j\<close>, that is, let the test have held and no
  earlier round have returned, and let the match count of window \<open>j\<close> be the number
  of observations minus the state size. Then \<^verbatim>\<open>InferState\<close> calls
  \<^verbatim>\<open>reverseToSeed\<close> with the bound 10000, prints the seed when the call succeeds and
  the state words when it fails, and returns true; \<^verbatim>\<open>main\<close> then ends without
  \<^verbatim>\<open>FindSeed\<close>.
\<close>

theorem InferState_perfect_guess:
  assumes enough: "unat (getStateSize P (getInstance P)) < length observedOutputs"
    and arrive: "InferState_rounds P observedOutputs (getStateSize P (getInstance P)) 0 j =
                   Some (g, acc)"
    and test: "unat (of_nat j :: u32) <
                 length observedOutputs - unat (getStateSize P (getInstance P))"
    and scored: "InferState_window P observedOutputs (getStateSize P (getInstance P)) g
                   (of_nat j) = Some (matchesFound, g')"
    and perfect: "unat matchesFound =
                    length observedOutputs - unat (getStateSize P (getInstance P))"
  shows "InferState P observedOutputs =
           Some (acc\<lparr>messages := messages acc @
                   (if fst (reverseToSeed P g' 0 10000)
                    then [Success_Found_seed (fst (snd (reverseToSeed P g' 0 10000)))]
                    else Success_Found_state #
                         map Success_state_word
                           (getState P (snd (snd (reverseToSeed P g' 0 10000))))),
                 matched := True, windows := windows acc @ [of_nat j]\<rparr>) \<and>
         main_recover P threads lowerBoundSeed upperBoundSeed depth 0 observedOutputs =
           Some (Inference_only
             (acc\<lparr>messages := messages acc @
                   (if fst (reverseToSeed P g' 0 10000)
                    then [Success_Found_seed (fst (snd (reverseToSeed P g' 0 10000)))]
                    else Success_Found_state #
                         map Success_state_word
                           (getState P (snd (snd (reverseToSeed P g' 0 10000))))),
                 matched := True, windows := windows acc @ [of_nat j]\<rparr>))"
proof -
  let ?k = "getStateSize P (getInstance P)"
  let ?r = "acc\<lparr>messages := messages acc @ InferState_perfect P g', matched := True,
                 windows := windows acc @ [of_nat j]\<rparr>"
  have "InferState_round P observedOutputs ?k 0 g (of_nat j) acc = Some (True, g', ?r)"
    using scored perfect by (simp add: InferState_round_def)
  with test have "InferState_loop P observedOutputs ?k 0 g (of_nat j) acc = Some ?r"
    by (rule InferState_loop_done)
  with InferState_rounds_loop [OF arrive] enough
  have result: "InferState P observedOutputs = Some ?r"
    by (simp add: InferState_def)
  moreover from enough have "observedOutputs \<noteq> []"
    by auto
  ultimately have "main_recover P threads lowerBoundSeed upperBoundSeed depth 0 observedOutputs =
      Some (Inference_only ?r)"
    by (simp add: main_recover_def)
  with result show ?thesis
    by (simp add: InferState_perfect_def Let_def)
qed

theorem InferState_perfect_guess_witness:
  "unat (getStateSize Counter (getInstance Counter)) < length [9::u32, 5, 6] \<and>
   InferState_rounds Counter [9, 5, 6] 1 0 1 =
     Some (9, \<lparr>messages = [Info_Trying_state_inference], matched = False, scores = [0],
               best_state = [],
               windows = [0]\<rparr>) \<and>
   InferState_window Counter [9, 5, 6] 1 9 1 = Some (2, 5) \<and>
   InferState Counter [9, 5, 6] =
     Some \<lparr>messages = [Info_Trying_state_inference, Success_Found_seed 4], matched = True, scores = [0],
           best_state = [], windows = [0, 1]\<rparr> \<and>
   main_recover Counter 1 0 10 1000 0 [9, 5, 6] =
     Some (Inference_only
       \<lparr>messages = [Info_Trying_state_inference, Success_Found_seed 4], matched = True, scores = [0],
        best_state = [], windows = [0, 1]\<rparr>) \<and>
   InferState Counter_irreversible [9, 5, 6] =
     Some \<lparr>messages = [Info_Trying_state_inference, Success_Found_state, Success_state_word 5],
           matched = True,
           scores = [0], best_state = [], windows = [0, 1]\<rparr>"
proof -
  let ?acc = "\<lparr>messages = [Info_Trying_state_inference], matched = False, scores = [0],
               best_state = [],
               windows = [0]\<rparr>"
  have size: "getStateSize Counter (getInstance Counter) = 1"
    "getStateSize Counter_irreversible (getInstance Counter_irreversible) = 1"
    by (simp_all add: Counter_def Counter_irreversible_def)
  have enough: "unat (1::u32) < length [9::u32, 5, 6]"
    and test: "unat (of_nat 1 :: u32) < length [9::u32, 5, 6] - unat (1::u32)"
    and perfect: "unat (2::u32) = length [9::u32, 5, 6] - unat (1::u32)"
    by simp_all
  have arrive: "InferState_rounds Counter [9, 5, 6] 1 0 1 = Some (9, ?acc)"
    "InferState_rounds Counter_irreversible [9, 5, 6] 1 0 1 = Some (9, ?acc)"
    by (simp_all add: inference_defs)
  have scored: "InferState_window Counter [9, 5, 6] 1 9 (of_nat 1) = Some (2, 5)"
    "InferState_window Counter_irreversible [9, 5, 6] 1 9 (of_nat 1) = Some (2, 5)"
    by (simp_all add: inference_defs)
  have reversed: "reverseToSeed Counter 5 0 10000 = (True, 4, 5)"
    "reverseToSeed Counter_irreversible 5 0 10000 = (False, 0, 5)"
    "getState Counter_irreversible 5 = [5]"
    by (simp_all add: Counter_def Counter_irreversible_def)
  from InferState_perfect_guess [where P = Counter and observedOutputs = "[9, 5, 6]"
      and j = 1 and g = 9 and acc = ?acc and matchesFound = 2 and g' = 5
      and threads = 1 and lowerBoundSeed = 0 and upperBoundSeed = 10 and depth = 1000,
      unfolded size, OF enough arrive(1) test scored(1) perfect]
  have "InferState Counter [9, 5, 6] =
     Some \<lparr>messages = [Info_Trying_state_inference, Success_Found_seed 4], matched = True, scores = [0],
           best_state = [], windows = [0, 1]\<rparr>"
    and "main_recover Counter 1 0 10 1000 0 [9, 5, 6] =
     Some (Inference_only
       \<lparr>messages = [Info_Trying_state_inference, Success_Found_seed 4], matched = True, scores = [0],
        best_state = [], windows = [0, 1]\<rparr>)"
    by (simp_all add: reversed)
  moreover
  from InferState_perfect_guess [where P = Counter_irreversible
      and observedOutputs = "[9, 5, 6]"
      and j = 1 and g = 9 and acc = ?acc and matchesFound = 2 and g' = 5
      and threads = 1 and lowerBoundSeed = 0 and upperBoundSeed = 10 and depth = 1000,
      unfolded size, OF enough arrive(2) test scored(2) perfect]
  have "InferState Counter_irreversible [9, 5, 6] =
     Some \<lparr>messages = [Info_Trying_state_inference, Success_Found_state, Success_state_word 5],
           matched = True,
           scores = [0], best_state = [], windows = [0, 1]\<rparr>"
    by (simp add: reversed)
  ultimately show ?thesis
    using arrive(1) scored(1) by (simp add: size)
qed

text \<open>
  Claim C2 says that after a loop without a perfect guess the best-scoring state is
  reported with the highest score whenever some window scored above zero. The code
  compares every score with \<^verbatim>\<open>highscore\<close> and keeps \<^verbatim>\<open>best_state\<close>, but never assigns
  \<^verbatim>\<open>highscore\<close>, which stays 0.0: the test \<^verbatim>\<open>highscore > 0\<close> after the loop fails and the
  failure line is printed (\<open>InferState_never_guesses\<close>). Below, both windows score 50
  and the report is the failure line.
\<close>

theorem InferState_reports_no_best_state:
  "InferState Counter [5, 6, 9] =
     Some \<lparr>messages = [Info_Trying_state_inference, Info_State_Inference_failed],
           matched = False,
           scores = [50, 50], best_state = [6], windows = [0, 1]\<rparr>"
  by (simp add: inference_defs)

end
